theory Spec2Isabelle
  imports Main "HOL-Library.Word" "HOL-Library.Multiset"
begin

section \<open>Errors and the standard cancellation contexts\<close>

text \<open>
  A Go \<^verbatim>\<open>error\<close> interface value is either \<^verbatim>\<open>nil\<close> or a concrete error; it is
  modelled as \<open>error option\<close> with \<open>None\<close> for \<^verbatim>\<open>nil\<close>.  The concrete errors are the
  two sentinels of package \<^verbatim>\<open>context\<close>, the errors made by \<^verbatim>\<open>errors.New\<close> (compared
  by identity, hence the tag) and the errors that wrap another one (\<^verbatim>\<open>%w\<close>).
\<close>

datatype error =
    Canceled
  | DeadlineExceeded
  | ErrorString nat
  | WrapError nat error

text \<open>\<^verbatim>\<open>errors.Is\<close>: equality with the target somewhere on the \<^verbatim>\<open>Unwrap\<close> chain.\<close>

fun is_chain :: "error \<Rightarrow> error \<Rightarrow> bool" where
  "is_chain (WrapError n inner) target =
     (WrapError n inner = target \<or> is_chain inner target)"
| "is_chain err target = (err = target)"

definition errors_Is :: "error option \<Rightarrow> error option \<Rightarrow> bool" where
  "errors_Is err target =
     (case err of
        None \<Rightarrow> err = target
      | Some e \<Rightarrow> (case target of None \<Rightarrow> err = target | Some t \<Rightarrow> is_chain e t))"

text \<open>
  The state of a cancellation context of the standard library: \<^verbatim>\<open>ctx.Err()\<close> and
  \<^verbatim>\<open>context.Cause(ctx)\<close>.  Both are \<^verbatim>\<open>nil\<close> until the context is cancelled and are
  written once.
\<close>

record Context =
  Err :: "error option"
  Cause :: "error option"

definition Background :: Context where
  "Background = \<lparr>Err = None, Cause = None\<rparr>"

text \<open>\<^verbatim>\<open>(*cancelCtx).cancel(_, err, cause)\<close>: a no-op on a context that is already done.\<close>

definition cancelCtx_cancel :: "error \<Rightarrow> error option \<Rightarrow> Context \<Rightarrow> Context" where
  "cancelCtx_cancel err cause c =
     (if Err c \<noteq> None then c
      else c\<lparr>Err := Some err,
             Cause := (case cause of None \<Rightarrow> Some err | Some x \<Rightarrow> Some x)\<rparr>)"

text \<open>
  \<^verbatim>\<open>context.WithCancelCause(parent)\<close>: the child starts cancelled, with the parent's
  error and cause, when the parent is already done.
\<close>

definition WithCancelCause :: "Context \<Rightarrow> Context" where
  "WithCancelCause p =
     (case Err p of
        None \<Rightarrow> Background
      | Some e \<Rightarrow> cancelCtx_cancel e (Cause p) Background)"

section \<open>Options\<close>

record options =
  CancelOnFailure :: bool
  Limit :: "64 word"

type_synonym Option = "options \<Rightarrow> options"

definition WithCancelOnFailure :: Option where
  "WithCancelOnFailure = (\<lambda>opts. opts\<lparr>CancelOnFailure := True\<rparr>)"

definition WithLimit :: "64 word \<Rightarrow> Option" where
  "WithLimit limit = (\<lambda>opts. opts\<lparr>Limit := limit\<rparr>)"

section \<open>The Runner\<close>

text \<open>
  The Runner reads its context through a reference: the caller's context itself, or the
  context derived from it when \<^verbatim>\<open>WithCancelOnFailure\<close> was given.
\<close>

datatype ctx_ref = Parent | Derived

text \<open>
  \<open>cancel\<close> is \<open>None\<close> for a nil \<^verbatim>\<open>CancelCauseFunc\<close>, and otherwise names the context
  that the function cancels; \<open>once\<close> is the done flag of the \<^verbatim>\<open>sync.Once\<close>.
\<close>

record cancelOnFailure =
  cancel :: "ctx_ref option"
  once :: bool

text \<open>A buffered channel of \<^verbatim>\<open>struct{}\<close>: only its capacity and its length matter.\<close>

record chan =
  cap :: nat
  len :: nat

record Runner =
  ctx :: ctx_ref
  failCanceler :: cancelOnFailure
  wg :: nat
  errs :: "error option list"
  sem :: "chan option"

definition ShouldCancel :: "cancelOnFailure \<Rightarrow> bool" where
  "ShouldCancel c = (cancel c \<noteq> None)"

text \<open>
  \<^verbatim>\<open>make(chan struct{}, n)\<close> with \<open>n\<close> of type \<^verbatim>\<open>uint\<close> panics when \<open>n\<close> does not fit
  \<^verbatim>\<open>int\<close>; \<open>None\<close> is the panic.
\<close>

definition make_chan :: "64 word \<Rightarrow> chan option" where
  "make_chan n = (if unat n < 2 ^ 63 then Some \<lparr>cap = unat n, len = 0\<rparr> else None)"

text \<open>
  \<open>New\<close> returns the Runner together with the initial state of the derived context (which
  is only in use when \<open>ctx\<close> is \<open>Derived\<close>); \<open>None\<close> when \<^verbatim>\<open>make\<close> panics.
\<close>

fun apply_opts :: "Option list \<Rightarrow> options \<Rightarrow> options" where
  "apply_opts [] ro = ro"
| "apply_opts (opt # opts) ro = apply_opts opts (opt ro)"

text \<open>The options that \<open>New\<close> works with: the given ones applied to the zero value.\<close>

definition configure :: "Option list \<Rightarrow> options" where
  "configure opts = apply_opts opts \<lparr>CancelOnFailure = False, Limit = 0\<rparr>"

definition New :: "Context \<Rightarrow> Option list \<Rightarrow> (Runner \<times> Context) option" where
  "New c opts =
     (let ro = configure opts;
          r = \<lparr>ctx = Parent, failCanceler = \<lparr>cancel = None, once = False\<rparr>,
               wg = 0, errs = [], sem = None\<rparr>
      in case (if Limit ro > 0 then map_option (\<lambda>ch. r\<lparr>sem := Some ch\<rparr>) (make_chan (Limit ro))
               else Some r) of
           None \<Rightarrow> None
         | Some r1 \<Rightarrow>
             if CancelOnFailure ro
             then Some (r1\<lparr>ctx := Derived,
                           failCanceler := (failCanceler r1)\<lparr>cancel := Some Derived\<rparr>\<rparr>,
                        WithCancelCause c)
             else Some (r1, Background))"

definition hasLimit :: "Runner \<Rightarrow> bool" where
  "hasLimit r = ((case sem r of None \<Rightarrow> 0 | Some ch \<Rightarrow> cap ch) > 0)"

text \<open>
  A send on the full channel and a receive on the empty one block: \<open>None\<close> means that the
  calling thread cannot take this step now.
\<close>

definition maybeSemInc :: "Runner \<Rightarrow> Runner option" where
  "maybeSemInc r =
     (if hasLimit r
      then (case sem r of
              None \<Rightarrow> None
            | Some ch \<Rightarrow> if len ch < cap ch then Some (r\<lparr>sem := Some (ch\<lparr>len := len ch + 1\<rparr>)\<rparr>)
                         else None)
      else Some r)"

definition maybeSemDec :: "Runner \<Rightarrow> Runner option" where
  "maybeSemDec r =
     (if hasLimit r
      then (case sem r of
              None \<Rightarrow> None
            | Some ch \<Rightarrow> if 0 < len ch then Some (r\<lparr>sem := Some (ch\<lparr>len := len ch - 1\<rparr>)\<rparr>)
                         else None)
      else Some r)"

definition Append :: "error option \<Rightarrow> error option list \<Rightarrow> error option list" where
  "Append err es = es @ [err]"

definition Clone :: "error option list \<Rightarrow> error option list" where
  "Clone es = es"

definition causeForTaskSkip :: "Context \<Rightarrow> error option" where
  "causeForTaskSkip c =
     (let cause = Cause c
      in if errors_Is cause (Some Canceled) \<or> errors_Is cause (Some DeadlineExceeded)
         then cause
         else Some Canceled)"

section \<open>Goroutines, the caller and the interleaving of their steps\<close>

text \<open>
  A task is a function \<^verbatim>\<open>func() error\<close>; the Runner only sees what it returns, so a task
  is modelled by the value that its body returns.

  The goroutine started by \<^verbatim>\<open>Go\<close> runs through these points, one atomic step each:
  the test of \<^verbatim>\<open>r.ctx.Err()\<close>, then either the call of \<^verbatim>\<open>causeForTaskSkip\<close> or the
  body of the task, then the deferred function: the test of \<^verbatim>\<open>result\<close> with
  \<^verbatim>\<open>r.errs.Append\<close>, \<^verbatim>\<open>r.failCanceler.Cancel\<close>, \<^verbatim>\<open>r.wg.Done\<close> and
  \<^verbatim>\<open>r.maybeSemDec\<close>.  A goroutine is executing the body of its task exactly while it is
  at \<open>G_body\<close>.
\<close>

type_synonym task = "error option"

datatype gpc = G_check | G_skip | G_body | G_defer | G_cancel | G_done | G_dec | G_exit

text \<open>\<open>ran\<close> is a history variable: the body of the task has been executed to completion.\<close>

record goroutine =
  f :: task
  result :: "error option"
  pc :: gpc
  ran :: bool

text \<open>
  The caller runs a list of calls of \<^verbatim>\<open>Go\<close> and \<^verbatim>\<open>Wait\<close> in one thread.  \<^verbatim>\<open>Go\<close> is three
  steps (\<^verbatim>\<open>maybeSemInc\<close>, \<^verbatim>\<open>wg.Add(1)\<close>, the \<^verbatim>\<open>go\<close> statement), \<^verbatim>\<open>Wait\<close> is two
  (\<^verbatim>\<open>wg.Wait\<close>, then \<^verbatim>\<open>errs.Clone\<close> and the return).
\<close>

datatype cmd = Go task | Wait

datatype cpc = C_start | C_admitted | C_added | C_joined

text \<open>
  \<open>returned\<close> collects what the calls of \<^verbatim>\<open>Wait\<close> have returned, oldest first.
  \<open>executed\<close>, \<open>cancel_attempts\<close> and \<open>cancel_calls\<close> are history variables: the calls
  that the caller has completed, the arguments of the calls of
  \<^verbatim>\<open>cancelOnFailure.Cancel\<close>, and the arguments with which the underlying
  \<^verbatim>\<open>CancelCauseFunc\<close> has been invoked.
\<close>

record world =
  runner :: Runner
  parent :: Context
  derived :: Context
  goroutines :: "goroutine list"
  prog :: "cmd list"
  cpos :: cpc
  returned :: "error option list list"
  executed :: "cmd list"
  cancel_attempts :: "error option list"
  cancel_calls :: "error option list"

definition the_ctx :: "world \<Rightarrow> Context" where
  "the_ctx w = (case ctx (runner w) of Parent \<Rightarrow> parent w | Derived \<Rightarrow> derived w)"

definition init :: "Context \<Rightarrow> Option list \<Rightarrow> cmd list \<Rightarrow> world option" where
  "init c opts p =
     (case New c opts of
        None \<Rightarrow> None
      | Some (r, d) \<Rightarrow>
          Some \<lparr>runner = r, parent = c, derived = d, goroutines = [], prog = p,
                cpos = C_start, returned = [], executed = [], cancel_attempts = [],
                cancel_calls = []\<rparr>)"

definition spawn :: "task \<Rightarrow> goroutine" where
  "spawn t = \<lparr>f = t, result = None, pc = G_check, ran = False\<rparr>"

definition caller_step :: "world \<Rightarrow> world option" where
  "caller_step w =
     (case prog w of
        [] \<Rightarrow> None
      | Go t # rest \<Rightarrow>
          (case cpos w of
             C_start \<Rightarrow>
               (case maybeSemInc (runner w) of
                  None \<Rightarrow> None
                | Some r \<Rightarrow> Some (w\<lparr>runner := r, cpos := C_admitted\<rparr>))
           | C_admitted \<Rightarrow>
               Some (w\<lparr>runner := (runner w)\<lparr>wg := wg (runner w) + 1\<rparr>, cpos := C_added\<rparr>)
           | C_added \<Rightarrow>
               Some (w\<lparr>goroutines := goroutines w @ [spawn t], prog := rest, cpos := C_start,
                       executed := executed w @ [Go t]\<rparr>)
           | C_joined \<Rightarrow> None)
      | Wait # rest \<Rightarrow>
          (case cpos w of
             C_start \<Rightarrow> if wg (runner w) = 0 then Some (w\<lparr>cpos := C_joined\<rparr>) else None
           | C_joined \<Rightarrow>
               Some (w\<lparr>returned := returned w @ [Clone (errs (runner w))],
                       prog := rest, cpos := C_start, executed := executed w @ [Wait]\<rparr>)
           | _ \<Rightarrow> None))"

text \<open>
  \<^verbatim>\<open>c.once.Do(func() { c.cancel(err) })\<close>; the function made by \<^verbatim>\<open>WithCancelCause\<close>
  cancels its context with \<^verbatim>\<open>Canceled\<close> and the given cause.
\<close>

definition Cancel :: "error option \<Rightarrow> world \<Rightarrow> world" where
  "Cancel err w =
     (let w1 = w\<lparr>cancel_attempts := cancel_attempts w @ [err]\<rparr>;
          fc = failCanceler (runner w1)
      in if once fc then w1
         else w1\<lparr>runner := (runner w1)\<lparr>failCanceler := fc\<lparr>once := True\<rparr>\<rparr>,
                 derived := (case cancel fc of
                               Some Derived \<Rightarrow> cancelCtx_cancel Canceled err (derived w1)
                             | _ \<Rightarrow> derived w1),
                 cancel_calls := cancel_calls w1 @ [err]\<rparr>)"

text \<open>
  One step of the function literal that \<^verbatim>\<open>Go\<close> starts, for the goroutine \<open>g\<close>: the
  goroutine after the step and the world with the shared state as the step leaves it.
  \<^verbatim>\<open>wg.Done\<close> on a zero counter panics and a receive on the empty channel blocks; both
  are \<open>None\<close>, as is a step of a goroutine that has returned.
\<close>

definition go_func :: "goroutine \<Rightarrow> world \<Rightarrow> (goroutine \<times> world) option" where
  "go_func g w =
     (case pc g of
        G_check \<Rightarrow>
          Some (g\<lparr>pc := (if Err (the_ctx w) \<noteq> None then G_skip else G_body)\<rparr>, w)
      | G_skip \<Rightarrow> Some (g\<lparr>result := causeForTaskSkip (the_ctx w), pc := G_defer\<rparr>, w)
      | G_body \<Rightarrow> Some (g\<lparr>result := f g, pc := G_defer, ran := True\<rparr>, w)
      | G_defer \<Rightarrow>
          (if result g \<noteq> None
           then Some (g\<lparr>pc := (if ShouldCancel (failCanceler (runner w))
                                then G_cancel else G_done)\<rparr>,
                      w\<lparr>runner := (runner w)\<lparr>errs := Append (result g) (errs (runner w))\<rparr>\<rparr>)
           else Some (g\<lparr>pc := G_done\<rparr>, w))
      | G_cancel \<Rightarrow> Some (g\<lparr>pc := G_done\<rparr>, Cancel (result g) w)
      | G_done \<Rightarrow>
          (if wg (runner w) = 0 then None
           else Some (g\<lparr>pc := G_dec\<rparr>, w\<lparr>runner := (runner w)\<lparr>wg := wg (runner w) - 1\<rparr>\<rparr>))
      | G_dec \<Rightarrow>
          (case maybeSemDec (runner w) of
             None \<Rightarrow> None
           | Some r \<Rightarrow> Some (g\<lparr>pc := G_exit\<rparr>, w\<lparr>runner := r\<rparr>))
      | G_exit \<Rightarrow> None)"

definition task_step :: "nat \<Rightarrow> world \<Rightarrow> world option" where
  "task_step i w =
     (if length (goroutines w) \<le> i then None
      else case go_func (goroutines w ! i) w of
             None \<Rightarrow> None
           | Some (g, w') \<Rightarrow> Some (w'\<lparr>goroutines := (goroutines w')[i := g]\<rparr>))"

text \<open>
  The environment may cancel the caller's context at any time, once, with \<^verbatim>\<open>Canceled\<close>
  or \<^verbatim>\<open>DeadlineExceeded\<close> as its error and any cause; the standard library cancels the
  derived context with the same error and cause in the same critical section.
\<close>

definition parent_cancel :: "error \<Rightarrow> error \<Rightarrow> world \<Rightarrow> world option" where
  "parent_cancel e c w =
     (if Err (parent w) \<noteq> None \<or> (e \<noteq> Canceled \<and> e \<noteq> DeadlineExceeded) then None
      else Some (w\<lparr>parent := cancelCtx_cancel e (Some c) (parent w),
                   derived := (if ctx (runner w) = Derived
                               then cancelCtx_cancel e (Some c) (derived w)
                               else derived w)\<rparr>))"

datatype event = Caller | Task nat | ParentCancel error error

fun step :: "event \<Rightarrow> world \<Rightarrow> world option" where
  "step Caller w = caller_step w"
| "step (Task i) w = task_step i w"
| "step (ParentCancel e c) w = parent_cancel e c w"

text \<open>An execution is a schedule, a list of events each of which is enabled in its turn.\<close>

fun run :: "event list \<Rightarrow> world \<Rightarrow> world option" where
  "run [] w = Some w"
| "run (e # es) w = (case step e w of None \<Rightarrow> None | Some w' \<Rightarrow> run es w')"

text \<open>
  The world that a schedule leaves when the caller builds a Runner with \<open>New c opts\<close> and
  then runs the calls \<open>p\<close>; \<open>None\<close> when \<open>New\<close> panics or the schedule asks for a step that
  cannot be taken.
\<close>

definition execute :: "Context \<Rightarrow> Option list \<Rightarrow> cmd list \<Rightarrow> event list \<Rightarrow> world option" where
  "execute c opts p es = (case init c opts p of None \<Rightarrow> None | Some w0 \<Rightarrow> run es w0)"

text \<open>The caller has returned from its last call.\<close>

definition finished :: "world \<Rightarrow> bool" where
  "finished w = (prog w = [])"

text \<open>The errors that \<^verbatim>\<open>errors.Is\<close> recognises as a cancellation or an expired deadline.\<close>

definition is_cancellation :: "error option \<Rightarrow> bool" where
  "is_cancellation err =
     (errors_Is err (Some Canceled) \<or> errors_Is err (Some DeadlineExceeded))"

section \<open>Counting goroutines\<close>

text \<open>The number of elements of a list that satisfy a predicate.\<close>

definition cnt :: "('a \<Rightarrow> bool) \<Rightarrow> 'a list \<Rightarrow> nat" where
  "cnt P xs = length (filter P xs)"

text \<open>
  The WaitGroup counter is the number of goroutines that have not called \<^verbatim>\<open>wg.Done\<close>, plus
  one while the caller is between \<^verbatim>\<open>wg.Add(1)\<close> and the \<^verbatim>\<open>go\<close> statement.  The
  channel, when there is one, holds one token for each goroutine that has not released its
  slot, plus one while the caller is between \<^verbatim>\<open>maybeSemInc\<close> and the \<^verbatim>\<open>go\<close> statement.
\<close>

definition inv_count :: "world \<Rightarrow> bool" where
  "inv_count w =
     (wg (runner w) = cnt (\<lambda>g. pc g \<noteq> G_dec \<and> pc g \<noteq> G_exit) (goroutines w)
                      + (if cpos w = C_added then 1 else 0)
      \<and> (case sem (runner w) of
            None \<Rightarrow> True
          | Some ch \<Rightarrow>
              0 < cap ch \<and> len ch \<le> cap ch \<and>
              len ch = cnt (\<lambda>g. pc g \<noteq> G_exit) (goroutines w)
                       + (if cpos w = C_admitted \<or> cpos w = C_added then 1 else 0)))"

section \<open>Invariants of the executions\<close>

text \<open>
  A goroutine is past the choice between its task and the skip once it has left \<open>G_check\<close>,
  \<open>G_skip\<close> and \<open>G_body\<close>; it was skipped when it is past that choice without having run
  the body of its task.
\<close>

definition after_body :: "goroutine \<Rightarrow> bool" where
  "after_body g = (pc g \<noteq> G_check \<and> pc g \<noteq> G_skip \<and> pc g \<noteq> G_body)"

definition skipped :: "goroutine \<Rightarrow> bool" where
  "skipped g = (after_body g \<and> \<not> ran g)"

text \<open>
  What each goroutine knows: its \<^verbatim>\<open>result\<close> is \<^verbatim>\<open>nil\<close> until the body or the skip has
  set it, then it is what the task returned or what \<^verbatim>\<open>causeForTaskSkip\<close> gives for the
  Runner's context, which is done whenever a goroutine is skipped.
\<close>

definition local_ok :: "world \<Rightarrow> goroutine \<Rightarrow> bool" where
  "local_ok w g =
     ((\<not> after_body g \<longrightarrow> \<not> ran g \<and> result g = None)
      \<and> (after_body g \<and> ran g \<longrightarrow> result g = f g)
      \<and> (skipped g \<longrightarrow> result g = causeForTaskSkip (the_ctx w))
      \<and> (pc g = G_skip \<or> skipped g \<longrightarrow> Err (the_ctx w) \<noteq> None)
      \<and> (pc g = G_cancel \<longrightarrow> result g \<noteq> None))"

definition inv_local :: "world \<Rightarrow> bool" where
  "inv_local w = (\<forall>g \<in> set (goroutines w). local_ok w g)"

text \<open>The goroutines whose error has been appended to the collector.\<close>

definition appended :: "goroutine \<Rightarrow> bool" where
  "appended g =
     (result g \<noteq> None \<and> (pc g = G_cancel \<or> pc g = G_done \<or> pc g = G_dec \<or> pc g = G_exit))"

definition inv_errs :: "world \<Rightarrow> bool" where
  "inv_errs w =
     (None \<notin> set (errs (runner w))
      \<and> mset (errs (runner w)) = mset (map result (filter appended (goroutines w))))"

text \<open>The goroutines that have called \<^verbatim>\<open>cancelOnFailure.Cancel\<close> when there is a cancel function.\<close>

definition attempted :: "goroutine \<Rightarrow> bool" where
  "attempted g = (result g \<noteq> None \<and> (pc g = G_done \<or> pc g = G_dec \<or> pc g = G_exit))"

definition inv_cfg :: "world \<Rightarrow> bool" where
  "inv_cfg w =
     (cancel (failCanceler (runner w)) = (if ctx (runner w) = Derived then Some Derived else None))"

definition inv_history :: "world \<Rightarrow> bool" where
  "inv_history w =
     ((once (failCanceler (runner w)) \<longleftrightarrow> cancel_attempts w \<noteq> [])
      \<and> cancel_calls w = take 1 (cancel_attempts w)
      \<and> mset (cancel_attempts w) =
          (if cancel (failCanceler (runner w)) = None then {#}
           else mset (map result (filter attempted (goroutines w))))
      \<and> (cancel (failCanceler (runner w)) = None \<longrightarrow>
            (\<forall>g \<in> set (goroutines w). pc g \<noteq> G_cancel)))"

text \<open>
  The derived context: it is done once \<^verbatim>\<open>Cancel\<close> has been called or the caller's context
  is done.  When it is done and the caller's context is not, \<^verbatim>\<open>Cancel\<close> has been called and
  the cause is the argument of its first call.  When the caller's context is done and
  \<^verbatim>\<open>Cancel\<close> has not been called, the derived context has the error and the cause of the
  caller's context.
\<close>

definition inv_derived :: "world \<Rightarrow> bool" where
  "inv_derived w =
     (ctx (runner w) = Derived \<longrightarrow>
        (once (failCanceler (runner w)) \<longrightarrow> Err (derived w) \<noteq> None)
        \<and> (Err (parent w) \<noteq> None \<longrightarrow> Err (derived w) \<noteq> None)
        \<and> (Err (derived w) \<noteq> None \<and> Err (parent w) = None \<longrightarrow>
             once (failCanceler (runner w))
             \<and> derived w = \<lparr>Err = Some Canceled, Cause = hd (cancel_attempts w)\<rparr>)
        \<and> (\<not> once (failCanceler (runner w)) \<and> Err (parent w) \<noteq> None
             \<and> Cause (parent w) \<noteq> None \<longrightarrow> derived w = parent w))"

definition inv_cancel :: "world \<Rightarrow> bool" where
  "inv_cancel w = (inv_history w \<and> inv_derived w)"

text \<open>
  The caller's position agrees with the call it is in.  A call of \<^verbatim>\<open>Wait\<close> that has passed
  \<^verbatim>\<open>wg.Wait\<close> sees the counter at zero, and as long as the caller has not started another
  call, what \<^verbatim>\<open>Wait\<close> returned is what the collector holds.  No snapshot holds \<^verbatim>\<open>nil\<close>.
\<close>

definition inv_caller :: "world \<Rightarrow> bool" where
  "inv_caller w =
     ((cpos w = C_admitted \<or> cpos w = C_added \<longrightarrow> (\<exists>t rest. prog w = Go t # rest))
      \<and> (cpos w = C_joined \<longrightarrow> (\<exists>rest. prog w = Wait # rest) \<and> wg (runner w) = 0)
      \<and> (cpos w = C_start \<and> executed w \<noteq> [] \<and> last (executed w) = Wait \<longrightarrow>
            wg (runner w) = 0 \<and> returned w \<noteq> [] \<and> last (returned w) = errs (runner w))
      \<and> (\<forall>snap \<in> set (returned w). None \<notin> set snap))"

text \<open>The goroutines are those of the completed calls of \<^verbatim>\<open>Go\<close>, in the order of the calls.\<close>

fun go_tasks :: "cmd list \<Rightarrow> task list" where
  "go_tasks [] = []"
| "go_tasks (Go t # cs) = t # go_tasks cs"
| "go_tasks (Wait # cs) = go_tasks cs"

definition inv_tasks :: "world \<Rightarrow> bool" where
  "inv_tasks w = (map f (goroutines w) = go_tasks (executed w))"

text \<open>
  While the caller's context is not done, the Runner's context is done only after a task
  that ran has returned an error and its goroutine has called \<^verbatim>\<open>Cancel\<close>, before any
  other goroutine did.
\<close>

definition inv_trigger :: "world \<Rightarrow> bool" where
  "inv_trigger w =
     (Err (parent w) = None \<and> Err (the_ctx w) \<noteq> None \<longrightarrow>
        (\<exists>g \<in> set (goroutines w). ran g \<and> attempted g \<and> result g = hd (cancel_attempts w)))"

definition inv :: "world \<Rightarrow> bool" where
  "inv w = (inv_count w \<and> inv_cfg w \<and> inv_local w \<and> inv_errs w \<and> inv_cancel w
            \<and> inv_caller w \<and> inv_tasks w \<and> inv_trigger w)"

text \<open>What no step changes: the configuration of the Runner and the calls of the caller.\<close>

definition same_config :: "world \<Rightarrow> world \<Rightarrow> bool" where
  "same_config w w' =
     (ctx (runner w') = ctx (runner w)
      \<and> cancel (failCanceler (runner w')) = cancel (failCanceler (runner w))
      \<and> map_option cap (sem (runner w')) = map_option cap (sem (runner w))
      \<and> executed w' @ prog w' = executed w @ prog w)"

section \<open>Progress and termination\<close>

text \<open>The events of the program's own threads, as opposed to those of the environment.\<close>

fun thread_event :: "event \<Rightarrow> bool" where
  "thread_event (ParentCancel e c) = False"
| "thread_event e = True"

text \<open>
  An upper bound on the steps that the threads can still take: those of each goroutine
  from its position to its return, and those of the caller for the calls it has not
  completed (a call of \<^verbatim>\<open>Go\<close> counts for its three steps and the six of the goroutine it
  starts).
\<close>

fun cost_g :: "gpc \<Rightarrow> nat" where
  "cost_g G_check = 6"
| "cost_g G_skip = 5"
| "cost_g G_body = 5"
| "cost_g G_defer = 4"
| "cost_g G_cancel = 3"
| "cost_g G_done = 2"
| "cost_g G_dec = 1"
| "cost_g G_exit = 0"

fun cost_cmd :: "cmd \<Rightarrow> nat" where
  "cost_cmd (Go t) = 9"
| "cost_cmd Wait = 2"

fun cost_pos :: "cpc \<Rightarrow> nat" where
  "cost_pos C_start = 0"
| "cost_pos C_admitted = 1"
| "cost_pos C_added = 2"
| "cost_pos C_joined = 1"

definition work :: "world \<Rightarrow> nat" where
  "work w =
     (sum_list (map cost_cmd (prog w)) - cost_pos (cpos w))
     + sum_list (map (\<lambda>g. cost_g (pc g)) (goroutines w))"

section \<open>Example schedules\<close>

text \<open>\<open>steps n e\<close> schedules the event \<open>e\<close> for \<open>n\<close> consecutive steps.\<close>

definition steps :: "nat \<Rightarrow> event \<Rightarrow> event list" where
  "steps n e = replicate n e"

text \<open>
  Two tasks and a join, without options: the first task fails, the second succeeds.  Both
  goroutines are started before either runs.
\<close>

definition two_tasks :: "cmd list" where
  "two_tasks = [Go (Some (ErrorString 0)), Go None, Wait]"

definition two_tasks_sched :: "event list" where
  "two_tasks_sched = steps 6 Caller @ steps 5 (Task 0) @ steps 5 (Task 1) @ steps 2 Caller"

text \<open>
  With a limit of two, the second goroutine is in the body of its task while the first has
  not taken a step.
\<close>

definition overtaking_sched :: "event list" where
  "overtaking_sched = steps 6 Caller @ steps 1 (Task 1)"

text \<open>With a limit of one, the first goroutine is in the body of its task.\<close>

definition first_running_sched :: "event list" where
  "first_running_sched = steps 3 Caller @ steps 1 (Task 0)"

text \<open>One task under a context whose deadline has passed.\<close>

definition expired :: Context where
  "expired = \<lparr>Err = Some DeadlineExceeded, Cause = Some DeadlineExceeded\<rparr>"

definition one_task :: "cmd list" where
  "one_task = [Go None, Wait]"

definition one_skip_sched :: "event list" where
  "one_skip_sched = steps 3 Caller @ steps 5 (Task 0) @ steps 2 Caller"

text \<open>The two tasks one after the other, as a limit of one forces them.\<close>

definition two_tasks_serial_sched :: "event list" where
  "two_tasks_serial_sched =
     steps 3 Caller @ steps 5 (Task 0) @ steps 3 Caller @ steps 5 (Task 1) @ steps 2 Caller"

text \<open>The caller's context is cancelled before the two tasks are submitted.\<close>

definition cancelled_first_sched :: "event list" where
  "cancelled_first_sched = ParentCancel Canceled Canceled # two_tasks_sched"

text \<open>Three tasks that succeed, all started before any of them runs.\<close>

definition three_ok :: "cmd list" where
  "three_ok = map Go (replicate 3 None) @ [Wait]"

definition three_ok_sched :: "event list" where
  "three_ok_sched =
     steps 9 Caller @ steps 4 (Task 2) @ steps 4 (Task 0) @ steps 4 (Task 1) @ steps 2 Caller"

text \<open>
  A task fails with an error that wraps \<^verbatim>\<open>context.DeadlineExceeded\<close>, as a task does whose
  own request has timed out, and a second task is submitted after the join.  Each
  goroutine runs to its end before the caller joins.
\<close>

definition wrapped_deadline :: error where
  "wrapped_deadline = WrapError 7 DeadlineExceeded"

definition fail_then_ok :: "cmd list" where
  "fail_then_ok = [Go (Some wrapped_deadline), Wait, Go None, Wait]"

definition fail_then_ok_sched :: "event list" where
  "fail_then_ok_sched =
     steps 3 Caller @ steps 6 (Task 0) @ steps 2 Caller
     @ steps 3 Caller @ steps 6 (Task 1) @ steps 2 Caller"

text \<open>
  Tasks submitted one at a time, each followed by a join, and a last join; the schedule
  that runs the goroutine \<open>i\<close> for the given number of steps between its submission and
  the join.
\<close>

definition sequential :: "task list \<Rightarrow> cmd list" where
  "sequential ts = concat (map (\<lambda>t. [Go t, Wait]) ts) @ [Wait]"

fun sequential_sched :: "nat \<Rightarrow> nat list \<Rightarrow> event list" where
  "sequential_sched i [] = steps 2 Caller"
| "sequential_sched i (n # ns) =
     steps 3 Caller @ steps n (Task i) @ steps 2 Caller @ sequential_sched (Suc i) ns"

text \<open>Eight tasks of which only the second fails, with the error that wraps the deadline.\<close>

definition eight_tasks :: "task list" where
  "eight_tasks = [None, Some wrapped_deadline, None, None, None, None, None, None]"

definition eight_sched :: "event list" where
  "eight_sched = sequential_sched 0 [5, 6, 6, 6, 6, 6, 6, 6]"


text \<open>A context that was cancelled with a cause of the caller's own.\<close>

definition cancelled_with_cause :: Context where
  "cancelled_with_cause = \<lparr>Err = Some Canceled, Cause = Some (ErrorString 7)\<rparr>"

text \<open>One skipped task when \<^verbatim>\<open>WithCancelOnFailure\<close> is given: the goroutine also calls \<^verbatim>\<open>Cancel\<close>.\<close>

definition one_skip_cancel_sched :: "event list" where
  "one_skip_cancel_sched = steps 3 Caller @ steps 6 (Task 0) @ steps 2 Caller"



section \<open>Case analysis of the steps\<close>

lemma cnt_simps [simp]:
  "cnt P [] = 0"
  "cnt P (x # xs) = (if P x then 1 else 0) + cnt P xs"
  "cnt P (xs @ ys) = cnt P xs + cnt P ys"
  by (simp_all add: cnt_def)

lemma cnt_mono: "(\<And>x. P x \<Longrightarrow> Q x) \<Longrightarrow> cnt P xs \<le> cnt Q xs"
  by (induction xs) auto

lemma split_at: "i < length xs \<Longrightarrow> \<exists>ys zs. xs = ys @ xs ! i # zs \<and> length ys = i"
  by (metis id_take_nth_drop length_take min.absorb2 less_imp_le)

lemma go_func_goroutines: "go_func g w = Some (g', w') \<Longrightarrow> goroutines w' = goroutines w"
  by (auto simp: go_func_def Cancel_def Let_def split: gpc.splits if_splits option.splits)

lemma task_stepE:
  assumes "task_step i w = Some w2"
  obtains xs g ys g' w1 where
    "goroutines w = xs @ g # ys" "length xs = i" "go_func g w = Some (g', w1)"
    "w2 = w1\<lparr>goroutines := xs @ g' # ys\<rparr>"
proof -
  from assms have i: "i < length (goroutines w)"
    by (auto simp: task_step_def split: if_splits)
  from split_at[OF i] obtain xs ys where
    sp: "goroutines w = xs @ goroutines w ! i # ys" "length xs = i" by blast
  from assms i obtain g' w1 where
    gf: "go_func (goroutines w ! i) w = Some (g', w1)" and w2: "w2 = w1\<lparr>goroutines := (goroutines w1)[i := g']\<rparr>"
    by (auto simp: task_step_def split: if_splits option.splits)
  have "goroutines w1 = goroutines w" using gf by (rule go_func_goroutines)
  then have "(goroutines w1)[i := g'] = xs @ g' # ys"
    using sp by (metis list_update_length)
  with that[OF sp gf] w2 show thesis by simp
qed

lemma run_invariant:
  assumes "\<And>e w w'. I w \<Longrightarrow> step e w = Some w' \<Longrightarrow> I w'"
    and "I w" and "run es w = Some w'"
  shows "I w'"
  using assms(2,3)
proof (induction es arbitrary: w)
  case Nil
  then show ?case by simp
next
  case (Cons e es)
  then show ?case by (auto split: option.splits dest: assms(1))
qed




lemma Cancel_fields [simp]:
  "goroutines (Cancel e w) = goroutines w"
  "prog (Cancel e w) = prog w"
  "cpos (Cancel e w) = cpos w"
  "returned (Cancel e w) = returned w"
  "executed (Cancel e w) = executed w"
  "parent (Cancel e w) = parent w"
  "wg (runner (Cancel e w)) = wg (runner w)"
  "errs (runner (Cancel e w)) = errs (runner w)"
  "sem (runner (Cancel e w)) = sem (runner w)"
  "ctx (runner (Cancel e w)) = ctx (runner w)"
  "cancel (failCanceler (runner (Cancel e w))) = cancel (failCanceler (runner w))"
  by (simp_all add: Cancel_def Let_def)

lemma task_step_cases [consumes 1, case_names check_skip check_body skip body defer_append
    defer_nil cancel wg_done sem_dec]:
  assumes "task_step i w = Some w'"
  obtains
    xs g ys where "goroutines w = xs @ g # ys" "length xs = i" "pc g = G_check"
      "Err (the_ctx w) \<noteq> None" "w' = w\<lparr>goroutines := xs @ g\<lparr>pc := G_skip\<rparr> # ys\<rparr>"
  | xs g ys where "goroutines w = xs @ g # ys" "length xs = i" "pc g = G_check"
      "Err (the_ctx w) = None" "w' = w\<lparr>goroutines := xs @ g\<lparr>pc := G_body\<rparr> # ys\<rparr>"
  | xs g ys where "goroutines w = xs @ g # ys" "length xs = i" "pc g = G_skip"
      "w' = w\<lparr>goroutines :=
                xs @ g\<lparr>result := causeForTaskSkip (the_ctx w), pc := G_defer\<rparr> # ys\<rparr>"
  | xs g ys where "goroutines w = xs @ g # ys" "length xs = i" "pc g = G_body"
      "w' = w\<lparr>goroutines := xs @ g\<lparr>result := f g, pc := G_defer, ran := True\<rparr> # ys\<rparr>"
  | xs g ys where "goroutines w = xs @ g # ys" "length xs = i" "pc g = G_defer"
      "result g \<noteq> None"
      "w' = w\<lparr>runner := (runner w)\<lparr>errs := errs (runner w) @ [result g]\<rparr>,
               goroutines := xs @ g\<lparr>pc := (if cancel (failCanceler (runner w)) \<noteq> None
                                               then G_cancel else G_done)\<rparr> # ys\<rparr>"
  | xs g ys where "goroutines w = xs @ g # ys" "length xs = i" "pc g = G_defer"
      "result g = None" "w' = w\<lparr>goroutines := xs @ g\<lparr>pc := G_done\<rparr> # ys\<rparr>"
  | xs g ys where "goroutines w = xs @ g # ys" "length xs = i" "pc g = G_cancel"
      "w' = (Cancel (result g) w)\<lparr>goroutines := xs @ g\<lparr>pc := G_done\<rparr> # ys\<rparr>"
  | xs g ys where "goroutines w = xs @ g # ys" "length xs = i" "pc g = G_done"
      "wg (runner w) \<noteq> 0"
      "w' = w\<lparr>runner := (runner w)\<lparr>wg := wg (runner w) - 1\<rparr>,
               goroutines := xs @ g\<lparr>pc := G_dec\<rparr> # ys\<rparr>"
  | xs g ys r where "goroutines w = xs @ g # ys" "length xs = i" "pc g = G_dec"
      "maybeSemDec (runner w) = Some r"
      "w' = w\<lparr>runner := r, goroutines := xs @ g\<lparr>pc := G_exit\<rparr> # ys\<rparr>"
proof -
  from assms obtain xs g ys g' w1 where
    *: "goroutines w = xs @ g # ys" "length xs = i" and gf: "go_func g w = Some (g', w1)"
    and w': "w' = w1\<lparr>goroutines := xs @ g' # ys\<rparr>" by (rule task_stepE)
  show thesis
  proof (cases "pc g")
    case G_check
    then show ?thesis using gf w' that(1,2)[OF *]
      by (cases "Err (the_ctx w) = None") (auto simp: go_func_def)
  next
    case G_skip
    then show ?thesis using gf w' that(3)[OF *] by (auto simp: go_func_def)
  next
    case G_body
    then show ?thesis using gf w' that(4)[OF *] by (auto simp: go_func_def)
  next
    case G_defer
    then show ?thesis using gf w' that(5,6)[OF *]
      by (cases "result g = None") (auto simp: go_func_def Append_def ShouldCancel_def)
  next
    case G_cancel
    then show ?thesis using gf w' that(7)[OF *] by (auto simp: go_func_def)
  next
    case G_done
    then show ?thesis using gf w' that(8)[OF *]
      by (cases "wg (runner w) = 0") (auto simp: go_func_def)
  next
    case G_dec
    then show ?thesis using gf w' that(9)[OF *]
      by (cases "maybeSemDec (runner w)") (auto simp: go_func_def)
  next
    case G_exit
    then show ?thesis using gf by (simp add: go_func_def)
  qed
qed

lemma caller_step_cases [consumes 1, case_names admit add spawn join clone]:
  assumes "caller_step w = Some w'"
  obtains
    t rest r where "prog w = Go t # rest" "cpos w = C_start" "maybeSemInc (runner w) = Some r"
      "w' = w\<lparr>runner := r, cpos := C_admitted\<rparr>"
  | t rest where "prog w = Go t # rest" "cpos w = C_admitted"
      "w' = w\<lparr>runner := (runner w)\<lparr>wg := wg (runner w) + 1\<rparr>, cpos := C_added\<rparr>"
  | t rest where "prog w = Go t # rest" "cpos w = C_added"
      "w' = w\<lparr>goroutines := goroutines w @ [spawn t], prog := rest, cpos := C_start,
               executed := executed w @ [Go t]\<rparr>"
  | rest where "prog w = Wait # rest" "cpos w = C_start" "wg (runner w) = 0"
      "w' = w\<lparr>cpos := C_joined\<rparr>"
  | rest where "prog w = Wait # rest" "cpos w = C_joined"
      "w' = w\<lparr>returned := returned w @ [errs (runner w)], prog := rest, cpos := C_start,
               executed := executed w @ [Wait]\<rparr>"
  using assms
  by (auto simp: caller_step_def Clone_def
           split: list.splits cmd.splits cpc.splits option.splits if_splits)

lemma maybeSemDec_cases [consumes 1, case_names unlimited limited]:
  assumes "maybeSemDec r = Some r'"
  obtains "sem r = None" "r' = r"
  | ch where "sem r = Some ch" "0 < len ch" "r' = r\<lparr>sem := Some (ch\<lparr>len := len ch - 1\<rparr>)\<rparr>"
  | ch where "sem r = Some ch" "cap ch = 0" "r' = r"
  using assms
  by (auto simp: maybeSemDec_def hasLimit_def split: option.splits if_splits)

lemma maybeSemInc_cases [consumes 1, case_names unlimited limited]:
  assumes "maybeSemInc r = Some r'"
  obtains "sem r = None" "r' = r"
  | ch where "sem r = Some ch" "len ch < cap ch" "r' = r\<lparr>sem := Some (ch\<lparr>len := len ch + 1\<rparr>)\<rparr>"
  | ch where "sem r = Some ch" "cap ch = 0" "r' = r"
  using assms
  by (auto simp: maybeSemInc_def hasLimit_def split: option.splits if_splits)

section \<open>The counters\<close>

lemma inv_count_caller: 
  assumes "caller_step w = Some w'" "inv_count w" shows "inv_count w'"
  using assms
proof (cases rule: caller_step_cases)
  case (admit t rest r)
  from admit(3) show ?thesis
    by (cases rule: maybeSemInc_cases) (use admit assms(2) in \<open>auto simp: inv_count_def split: option.splits\<close>)
qed (auto simp: inv_count_def spawn_def split: option.splits)

lemma inv_count_task: 
  assumes "task_step i w = Some w'" "inv_count w" shows "inv_count w'"
  using assms
proof (cases rule: task_step_cases)
  case (sem_dec xs g ys r)
  from sem_dec(4) show ?thesis
    by (cases rule: maybeSemDec_cases) (use sem_dec assms(2) in \<open>auto simp: inv_count_def split: option.splits\<close>)
qed (auto simp: inv_count_def split: option.splits)

lemma inv_count_env:
  assumes "parent_cancel e c w = Some w'" "inv_count w" shows "inv_count w'"
  using assms by (auto simp: parent_cancel_def inv_count_def split: if_splits option.splits)

lemma inv_count_step: "inv_count w \<Longrightarrow> step e w = Some w' \<Longrightarrow> inv_count w'"
  by (cases e) (auto intro: inv_count_caller inv_count_task inv_count_env)

section \<open>Preservation of the invariants\<close>

lemma parent_cancel_cases [consumes 1]:
  assumes "parent_cancel e c w = Some w'"
  obtains "Err (parent w) = None" "e = Canceled \<or> e = DeadlineExceeded"
    "w' = w\<lparr>parent := (parent w)\<lparr>Err := Some e, Cause := Some c\<rparr>,
             derived := (if ctx (runner w) = Derived
                         then cancelCtx_cancel e (Some c) (derived w) else derived w)\<rparr>"
  using assms by (auto simp: parent_cancel_def cancelCtx_cancel_def split: if_splits)

lemma the_ctx_simps [simp]:
  "the_ctx (w\<lparr>goroutines := gs\<rparr>) = the_ctx w"
  "the_ctx (w\<lparr>prog := p\<rparr>) = the_ctx w"
  "the_ctx (w\<lparr>cpos := cp\<rparr>) = the_ctx w"
  "the_ctx (w\<lparr>returned := rs\<rparr>) = the_ctx w"
  "the_ctx (w\<lparr>executed := ex\<rparr>) = the_ctx w"
  "ctx r' = ctx (runner w) \<Longrightarrow> the_ctx (w\<lparr>runner := r'\<rparr>) = the_ctx w"
  by (simp_all add: the_ctx_def split: ctx_ref.splits)

lemma the_ctx_Cancel: "Err (the_ctx w) \<noteq> None \<Longrightarrow> the_ctx (Cancel e w) = the_ctx w"
  by (auto simp: the_ctx_def Cancel_def Let_def cancelCtx_cancel_def
           split: ctx_ref.splits option.splits)

lemma Err_the_ctx_Cancel: "Err (the_ctx w) \<noteq> None \<Longrightarrow> Err (the_ctx (Cancel e w)) \<noteq> None"
  by (simp add: the_ctx_Cancel)

lemma maybeSem_ctx:
  "maybeSemDec r = Some r' \<Longrightarrow> ctx r' = ctx r"
  "maybeSemInc r = Some r' \<Longrightarrow> ctx r' = ctx r"
  by (auto simp: maybeSemDec_def maybeSemInc_def split: if_splits option.splits)

lemma the_ctx_stable:
  assumes "step e w = Some w'" "Err (the_ctx w) \<noteq> None"
  shows "the_ctx w' = the_ctx w"
proof (cases e)
  case Caller
  with assms(1) have "caller_step w = Some w'" by simp
  then show ?thesis by (cases rule: caller_step_cases) (auto simp: maybeSem_ctx)
next
  case (Task i)
  with assms(1) have "task_step i w = Some w'" by simp
  then show ?thesis
    by (cases rule: task_step_cases) (auto simp: maybeSem_ctx the_ctx_Cancel assms(2))
next
  case (ParentCancel e c)
  with assms(1) have "parent_cancel e c w = Some w'" by simp
  then show ?thesis using assms(2)
    by (cases rule: parent_cancel_cases)
       (auto simp: the_ctx_def cancelCtx_cancel_def split: ctx_ref.splits)
qed

lemma local_ok_frame:
  assumes "local_ok w g" "Err (the_ctx w) \<noteq> None \<longrightarrow> the_ctx w' = the_ctx w"
  shows "local_ok w' g"
  using assms by (auto simp: local_ok_def)

lemma inv_local_frame:
  assumes "inv_local w" "Err (the_ctx w) \<noteq> None \<longrightarrow> the_ctx w' = the_ctx w"
    "goroutines w' = goroutines w"
  shows "inv_local w'"
  using assms unfolding inv_local_def by (auto intro: local_ok_frame)

lemma inv_local_update:
  assumes "inv_local w" "goroutines w = xs @ g # ys"
    "Err (the_ctx w) \<noteq> None \<longrightarrow> the_ctx w' = the_ctx w"
    "goroutines w' = xs @ g' # ys" "local_ok w' g'"
  shows "inv_local w'"
  using assms unfolding inv_local_def by (auto intro: local_ok_frame)

lemma inv_local_caller:
  assumes "caller_step w = Some w'" "inv_local w" shows "inv_local w'"
  using assms(1)
proof (cases rule: caller_step_cases)
  case (spawn t rest)
  have "local_ok w' (spawn t)"
    by (simp add: local_ok_def spawn_def after_body_def skipped_def)
  moreover have "\<forall>g \<in> set (goroutines w). local_ok w' g"
    using assms(2) spawn by (auto simp: inv_local_def intro: local_ok_frame)
  ultimately show ?thesis using spawn by (simp add: inv_local_def)
qed (use assms(2) in \<open>auto intro!: inv_local_frame[OF assms(2)] simp: maybeSem_ctx\<close>)

lemma inv_local_task:
  assumes "task_step i w = Some w'" "inv_local w" shows "inv_local w'"
proof -
  have st: "Err (the_ctx w) \<noteq> None \<longrightarrow> the_ctx w' = the_ctx w"
    using the_ctx_stable[of "Task i" w w'] assms(1) by simp
  from assms(1) show ?thesis
  proof (cases rule: task_step_cases)
    case (check_skip xs g ys)
    have "local_ok w g" using assms(2) check_skip by (simp add: inv_local_def)
    then have "local_ok w' (g\<lparr>pc := G_skip\<rparr>)"
      using check_skip by (simp add: local_ok_def after_body_def skipped_def)
    then show ?thesis using check_skip st by (intro inv_local_update[OF assms(2)]) auto
  next
    case (check_body xs g ys)
    have "local_ok w g" using assms(2) check_body by (simp add: inv_local_def)
    then have "local_ok w' (g\<lparr>pc := G_body\<rparr>)"
      using check_body by (simp add: local_ok_def after_body_def skipped_def)
    then show ?thesis using check_body st by (intro inv_local_update[OF assms(2)]) auto
  next
    case (skip xs g ys)
    have "local_ok w g" using assms(2) skip by (simp add: inv_local_def)
    then have "local_ok w' (g\<lparr>result := causeForTaskSkip (the_ctx w), pc := G_defer\<rparr>)"
      using skip by (simp add: local_ok_def after_body_def skipped_def)
    then show ?thesis using skip st by (intro inv_local_update[OF assms(2)]) auto
  next
    case (body xs g ys)
    have "local_ok w g" using assms(2) body by (simp add: inv_local_def)
    then have "local_ok w' (g\<lparr>result := f g, pc := G_defer, ran := True\<rparr>)"
      using body by (simp add: local_ok_def after_body_def skipped_def)
    then show ?thesis using body st by (intro inv_local_update[OF assms(2)]) auto
  next
    case (defer_append xs g ys)
    have "local_ok w g" using assms(2) defer_append by (simp add: inv_local_def)
    then have "local_ok w' (g\<lparr>pc := (if cancel (failCanceler (runner w)) \<noteq> None
                                               then G_cancel else G_done)\<rparr>)"
      using defer_append by (simp add: local_ok_def after_body_def skipped_def)
    then show ?thesis using defer_append st by (intro inv_local_update[OF assms(2)]) auto
  next
    case (defer_nil xs g ys)
    have "local_ok w g" using assms(2) defer_nil by (simp add: inv_local_def)
    then have "local_ok w' (g\<lparr>pc := G_done\<rparr>)"
      using defer_nil by (simp add: local_ok_def after_body_def skipped_def)
    then show ?thesis using defer_nil st by (intro inv_local_update[OF assms(2)]) auto
  next
    case (cancel xs g ys)
    have "local_ok w g" using assms(2) cancel by (simp add: inv_local_def)
    then have "local_ok w (g\<lparr>pc := G_done\<rparr>)"
      using cancel by (simp add: local_ok_def after_body_def skipped_def)
    then have "local_ok w' (g\<lparr>pc := G_done\<rparr>)" using st by (rule local_ok_frame)
    then show ?thesis using cancel st by (intro inv_local_update[OF assms(2)]) auto
  next
    case (wg_done xs g ys)
    have "local_ok w g" using assms(2) wg_done by (simp add: inv_local_def)
    then have "local_ok w' (g\<lparr>pc := G_dec\<rparr>)"
      using wg_done by (simp add: local_ok_def after_body_def skipped_def)
    then show ?thesis using wg_done st by (intro inv_local_update[OF assms(2)]) auto
  next
    case (sem_dec xs g ys r)
    have "local_ok w g" using assms(2) sem_dec by (simp add: inv_local_def)
    then have "local_ok w (g\<lparr>pc := G_exit\<rparr>)"
      using sem_dec by (simp add: local_ok_def after_body_def skipped_def)
    then have "local_ok w' (g\<lparr>pc := G_exit\<rparr>)" using st by (rule local_ok_frame)
    then show ?thesis using sem_dec st by (intro inv_local_update[OF assms(2)]) auto
  qed
qed

lemma inv_local_env:
  assumes "parent_cancel e c w = Some w'" "inv_local w" shows "inv_local w'"
proof -
  have st: "Err (the_ctx w) \<noteq> None \<longrightarrow> the_ctx w' = the_ctx w"
    using the_ctx_stable[of "ParentCancel e c" w w'] assms(1) by simp
  from assms(1) have "goroutines w' = goroutines w"
    by (cases rule: parent_cancel_cases) simp
  with assms(2) st show ?thesis by (rule inv_local_frame)
qed

lemma inv_local_step: "inv_local w \<Longrightarrow> step e w = Some w' \<Longrightarrow> inv_local w'"
  by (cases e) (auto intro: inv_local_caller inv_local_task inv_local_env)

lemma inv_errs_caller:
  assumes "caller_step w = Some w'" "inv_errs w" shows "inv_errs w'"
  using assms(1)
proof (cases rule: caller_step_cases)
  case (admit t rest r)
  from admit(3) have "errs r = errs (runner w)"
    by (auto simp: maybeSemInc_def split: if_splits option.splits)
  then show ?thesis using assms(2) admit by (simp add: inv_errs_def)
qed (use assms(2) in \<open>auto simp: inv_errs_def spawn_def appended_def\<close>)

lemma inv_errs_task:
  assumes "task_step i w = Some w'" "inv_errs w" shows "inv_errs w'"
  using assms(1)
proof (cases rule: task_step_cases)
  case (sem_dec xs g ys r)
  from sem_dec(4) have "errs r = errs (runner w)"
    by (auto simp: maybeSemDec_def split: if_splits option.splits)
  then show ?thesis using assms(2) sem_dec by (simp add: inv_errs_def appended_def)
qed (use assms(2) in \<open>auto simp: inv_errs_def appended_def\<close>)

lemma inv_errs_env:
  assumes "parent_cancel e c w = Some w'" "inv_errs w" shows "inv_errs w'"
  using assms(1) by (cases rule: parent_cancel_cases) (use assms(2) in \<open>simp add: inv_errs_def\<close>)

lemma inv_errs_step: "inv_errs w \<Longrightarrow> step e w = Some w' \<Longrightarrow> inv_errs w'"
  by (cases e) (auto intro: inv_errs_caller inv_errs_task inv_errs_env)

lemma inv_cfg_step: 
  assumes "inv_cfg w" "step e w = Some w'" shows "inv_cfg w'"
proof (cases e)
  case Caller
  with assms(2) have "caller_step w = Some w'" by simp
  then show ?thesis
  proof (cases rule: caller_step_cases)
    case (admit t rest r)
    from admit(3) have "ctx r = ctx (runner w)" "failCanceler r = failCanceler (runner w)"
      by (auto simp: maybeSemInc_def split: if_splits option.splits)
    then show ?thesis using assms(1) admit by (simp add: inv_cfg_def)
  qed (use assms(1) in \<open>auto simp: inv_cfg_def\<close>)
next
  case (Task i)
  with assms(2) have "task_step i w = Some w'" by simp
  then show ?thesis
  proof (cases rule: task_step_cases)
    case (sem_dec xs g ys r)
    from sem_dec(4) have "ctx r = ctx (runner w)" "failCanceler r = failCanceler (runner w)"
      by (auto simp: maybeSemDec_def split: if_splits option.splits)
    then show ?thesis using assms(1) sem_dec by (simp add: inv_cfg_def)
  qed (use assms(1) in \<open>auto simp: inv_cfg_def\<close>)
next
  case (ParentCancel e c)
  with assms(2) have "parent_cancel e c w = Some w'" by simp
  then show ?thesis
    by (cases rule: parent_cancel_cases) (use assms(1) in \<open>simp add: inv_cfg_def\<close>)
qed

lemma Cancel_history [simp]:
  "cancel_attempts (Cancel e w) = cancel_attempts w @ [e]"
  "once (failCanceler (runner (Cancel e w)))"
  "cancel_calls (Cancel e w) =
     (if once (failCanceler (runner w)) then cancel_calls w else cancel_calls w @ [e])"
  "derived (Cancel e w) =
     (if once (failCanceler (runner w)) then derived w
      else case cancel (failCanceler (runner w)) of
             Some Derived \<Rightarrow> cancelCtx_cancel Canceled e (derived w)
           | _ \<Rightarrow> derived w)"
  by (simp_all add: Cancel_def Let_def split: option.splits ctx_ref.splits)

lemma Err_cancelCtx_cancel [simp]: "Err (cancelCtx_cancel e c x) \<noteq> None"
  by (simp add: cancelCtx_cancel_def)

lemma cancelCtx_cancel_fresh:
  "Err x = None \<Longrightarrow> cancelCtx_cancel e (Some c) x = \<lparr>Err = Some e, Cause = Some c\<rparr>"
  by (simp add: cancelCtx_cancel_def)

lemma maybeSem_failCanceler:
  "maybeSemDec r = Some r' \<Longrightarrow> failCanceler r' = failCanceler r"
  "maybeSemInc r = Some r' \<Longrightarrow> failCanceler r' = failCanceler r"
  by (auto simp: maybeSemDec_def maybeSemInc_def split: if_splits option.splits)

lemma Context_overwritten:
  "(x::Context)\<lparr>Err := a, Cause := b\<rparr> = \<lparr>Err = a, Cause = b\<rparr>"
  by (cases x) simp

lemma inv_history_caller:
  assumes "caller_step w = Some w'" "inv_history w" shows "inv_history w'"
  using assms(1)
proof (cases rule: caller_step_cases)
  case (admit t rest r)
  then show ?thesis using assms(2) maybeSem_failCanceler(2)[OF admit(3)]
    by (auto simp: inv_history_def)
next
  case (spawn t rest)
  then show ?thesis using assms(2) by (auto simp: inv_history_def spawn_def attempted_def)
qed (use assms(2) in \<open>auto simp: inv_history_def\<close>)

lemma inv_history_env:
  assumes "parent_cancel e c w = Some w'" "inv_history w" shows "inv_history w'"
  using assms(1)
  by (cases rule: parent_cancel_cases) (use assms(2) in \<open>auto simp: inv_history_def\<close>)

lemma inv_history_task:
  assumes "task_step i w = Some w'" "inv_history w" "inv_local w"
  shows "inv_history w'"
  using assms(1)
proof (cases rule: task_step_cases)
  case (check_skip xs g ys)
  then show ?thesis using assms(2) by (auto simp: inv_history_def attempted_def)
next
  case (check_body xs g ys)
  then show ?thesis using assms(2) by (auto simp: inv_history_def attempted_def)
next
  case (skip xs g ys)
  then show ?thesis using assms(2) by (auto simp: inv_history_def attempted_def)
next
  case (body xs g ys)
  then show ?thesis using assms(2) by (auto simp: inv_history_def attempted_def)
next
  case (defer_append xs g ys)
  then show ?thesis using assms(2) by (auto simp: inv_history_def attempted_def)
next
  case (defer_nil xs g ys)
  then show ?thesis using assms(2) by (auto simp: inv_history_def attempted_def)
next
  case (cancel xs g ys)
  have "local_ok w g" using assms(3) cancel by (simp add: inv_local_def)
  then obtain e where e: "result g = Some e" using cancel by (auto simp: local_ok_def)
  have c: "cancel (failCanceler (runner w)) \<noteq> None"
    using assms(2) cancel by (auto simp: inv_history_def)
  show ?thesis
  proof (cases "once (failCanceler (runner w))")
    case True
    then have "cancel_attempts w \<noteq> []" using assms(2) by (simp add: inv_history_def)
    then have "Suc 0 \<le> length (cancel_attempts w)"
      by (cases "cancel_attempts w") simp_all
    then show ?thesis using assms(2) cancel e c True
      by (auto simp: inv_history_def attempted_def)
  next
    case False
    then have "cancel_attempts w = []" "cancel_calls w = []"
      using assms(2) by (auto simp: inv_history_def)
    then show ?thesis using assms(2) cancel e c False
      by (auto simp: inv_history_def attempted_def)
  qed
next
  case (wg_done xs g ys)
  then show ?thesis using assms(2) by (auto simp: inv_history_def attempted_def)
next
  case (sem_dec xs g ys r)
  then show ?thesis using assms(2) maybeSem_failCanceler(1)[OF sem_dec(4)]
    by (auto simp: inv_history_def attempted_def)
qed

lemma inv_derivedD:
  assumes "inv_derived w" "ctx (runner w) = Derived"
  shows "once (failCanceler (runner w)) \<Longrightarrow> Err (derived w) \<noteq> None"
    and "Err (parent w) \<noteq> None \<Longrightarrow> Err (derived w) \<noteq> None"
    and "Err (derived w) \<noteq> None \<Longrightarrow> Err (parent w) = None \<Longrightarrow> once (failCanceler (runner w))"
    and "Err (derived w) \<noteq> None \<Longrightarrow> Err (parent w) = None \<Longrightarrow>
           derived w = \<lparr>Err = Some Canceled, Cause = hd (cancel_attempts w)\<rparr>"
    and "\<not> once (failCanceler (runner w)) \<Longrightarrow> Err (parent w) \<noteq> None \<Longrightarrow>
           Cause (parent w) \<noteq> None \<Longrightarrow> derived w = parent w"
  using assms unfolding inv_derived_def by blast+

lemma inv_derivedI:
  assumes "ctx (runner w) = Derived \<Longrightarrow> once (failCanceler (runner w)) \<Longrightarrow>
             Err (derived w) \<noteq> None"
    and "ctx (runner w) = Derived \<Longrightarrow> Err (parent w) \<noteq> None \<Longrightarrow> Err (derived w) \<noteq> None"
    and "ctx (runner w) = Derived \<Longrightarrow> Err (derived w) \<noteq> None \<Longrightarrow> Err (parent w) = None \<Longrightarrow>
           once (failCanceler (runner w))
           \<and> derived w = \<lparr>Err = Some Canceled, Cause = hd (cancel_attempts w)\<rparr>"
    and "ctx (runner w) = Derived \<Longrightarrow> \<not> once (failCanceler (runner w)) \<Longrightarrow>
           Err (parent w) \<noteq> None \<Longrightarrow> Cause (parent w) \<noteq> None \<Longrightarrow> derived w = parent w"
  shows "inv_derived w"
  unfolding inv_derived_def using assms by blast

lemma inv_derived_frame:
  assumes "inv_derived w" "ctx (runner w') = ctx (runner w)"
    "once (failCanceler (runner w')) = once (failCanceler (runner w))"
    "parent w' = parent w" "derived w' = derived w" "cancel_attempts w' = cancel_attempts w"
  shows "inv_derived w'"
  using assms(1) unfolding inv_derived_def assms(2-6) .

lemma inv_derived_caller:
  assumes "caller_step w = Some w'" "inv_derived w" shows "inv_derived w'"
  using assms(1)
proof (cases rule: caller_step_cases)
  case (admit t rest r)
  then show ?thesis
    using maybeSem_failCanceler(2)[OF admit(3)] maybeSem_ctx(2)[OF admit(3)]
    by (intro inv_derived_frame[OF assms(2)]) simp_all
next
  case (add t rest)
  then show ?thesis by (intro inv_derived_frame[OF assms(2)]) simp_all
next
  case (spawn t rest)
  then show ?thesis by (intro inv_derived_frame[OF assms(2)]) simp_all
next
  case (join rest)
  then show ?thesis by (intro inv_derived_frame[OF assms(2)]) simp_all
next
  case (clone rest)
  then show ?thesis by (intro inv_derived_frame[OF assms(2)]) simp_all
qed

lemma inv_derived_env:
  assumes "parent_cancel e c w = Some w'" "inv_derived w" shows "inv_derived w'"
  using assms(1)
proof (cases rule: parent_cancel_cases)
  case 1
  have p: "parent w' = \<lparr>Err = Some e, Cause = Some c\<rparr>"
    using 1 by (simp add: Context_overwritten)
  have r: "runner w' = runner w" using 1 by simp
  show ?thesis
  proof (rule inv_derivedI)
    assume cx: "ctx (runner w') = Derived"
    then have cw: "ctx (runner w) = Derived" using r by simp
    show "Err (derived w') \<noteq> None" using 1 cw by simp
    then show "Err (derived w') \<noteq> None" .
    show "once (failCanceler (runner w'))
           \<and> derived w' = \<lparr>Err = Some Canceled, Cause = hd (cancel_attempts w')\<rparr>"
      if "Err (parent w') = None" using that p by simp
    show "derived w' = parent w'" if n: "\<not> once (failCanceler (runner w'))"
    proof -
      have "\<not> once (failCanceler (runner w))" using n r by simp
      then have "Err (derived w) = None"
        using inv_derivedD(3)[OF assms(2) cw] 1(1) by blast
      then show ?thesis using 1 cw p by (simp add: cancelCtx_cancel_fresh)
    qed
  qed
qed

lemma inv_derived_task:
  assumes "task_step i w = Some w'" "inv_derived w" "inv_history w" "inv_local w" "inv_cfg w"
  shows "inv_derived w'"
  using assms(1)
proof (cases rule: task_step_cases)
  case (cancel xs g ys)
  have "local_ok w g" using assms(4) cancel by (simp add: inv_local_def)
  then obtain x where x: "result g = Some x" using cancel by (auto simp: local_ok_def)
  have c: "cancel (failCanceler (runner w)) = Some Derived" "ctx (runner w) = Derived"
    using assms(3,5) cancel by (auto simp: inv_history_def inv_cfg_def split: if_splits)
  have p: "parent w' = parent w" and o: "once (failCanceler (runner w'))"
    using cancel c by simp_all
  note D = inv_derivedD[OF assms(2) c(2)]
  show ?thesis
  proof (cases "once (failCanceler (runner w))")
    case True
    then have d: "derived w' = derived w" using cancel by simp
    have "cancel_attempts w \<noteq> []" using assms(3) True by (simp add: inv_history_def)
    then have h: "hd (cancel_attempts w') = hd (cancel_attempts w)" using cancel by simp
    show ?thesis
    proof (rule inv_derivedI)
      show "Err (derived w') \<noteq> None" using D(1)[OF True] d by simp
      then show "Err (derived w') \<noteq> None" .
      show "once (failCanceler (runner w'))
           \<and> derived w' = \<lparr>Err = Some Canceled, Cause = hd (cancel_attempts w')\<rparr>"
        if "Err (derived w') \<noteq> None" "Err (parent w') = None"
        using D(4) that o unfolding d h p by blast
      show "derived w' = parent w'" if "\<not> once (failCanceler (runner w'))"
        using that o by simp
    qed
  next
    case False
    then have a: "cancel_attempts w = []" using assms(3) by (simp add: inv_history_def)
    then have h: "hd (cancel_attempts w') = Some x" using cancel x by simp
    have d: "derived w' = cancelCtx_cancel Canceled (Some x) (derived w)"
      using cancel False c x by simp
    have live: "Err (parent w) = None \<Longrightarrow> Err (derived w) = None"
      using D(3) False by blast
    show ?thesis
    proof (rule inv_derivedI)
      show "Err (derived w') \<noteq> None" unfolding d by simp
      then show "Err (derived w') \<noteq> None" .
      show "once (failCanceler (runner w'))
           \<and> derived w' = \<lparr>Err = Some Canceled, Cause = hd (cancel_attempts w')\<rparr>"
        if "Err (parent w') = None"
        using that p live o unfolding d h by (simp add: cancelCtx_cancel_fresh)
      show "derived w' = parent w'" if "\<not> once (failCanceler (runner w'))"
        using that o by simp
    qed
  qed
next
  case (check_skip xs g ys)
  then show ?thesis by (intro inv_derived_frame[OF assms(2)]) simp_all
next
  case (check_body xs g ys)
  then show ?thesis by (intro inv_derived_frame[OF assms(2)]) simp_all
next
  case (skip xs g ys)
  then show ?thesis by (intro inv_derived_frame[OF assms(2)]) simp_all
next
  case (body xs g ys)
  then show ?thesis by (intro inv_derived_frame[OF assms(2)]) simp_all
next
  case (defer_append xs g ys)
  then show ?thesis by (intro inv_derived_frame[OF assms(2)]) simp_all
next
  case (defer_nil xs g ys)
  then show ?thesis by (intro inv_derived_frame[OF assms(2)]) simp_all
next
  case (wg_done xs g ys)
  then show ?thesis by (intro inv_derived_frame[OF assms(2)]) simp_all
next
  case (sem_dec xs g ys r)
  then show ?thesis
    using maybeSem_failCanceler(1)[OF sem_dec(4)] maybeSem_ctx(1)[OF sem_dec(4)]
    by (intro inv_derived_frame[OF assms(2)]) simp_all
qed

lemma inv_cancel_step:
  assumes "inv_cancel w" "inv_local w" "inv_cfg w" "step e w = Some w'"
  shows "inv_cancel w'"
proof (cases e)
  case Caller
  with assms show ?thesis
    by (auto simp: inv_cancel_def intro: inv_history_caller inv_derived_caller)
next
  case (Task i)
  with assms show ?thesis
    by (auto simp: inv_cancel_def intro: inv_history_task inv_derived_task)
next
  case (ParentCancel e c)
  with assms show ?thesis
    by (auto simp: inv_cancel_def intro: inv_history_env inv_derived_env)
qed

lemma go_tasks_append [simp]: "go_tasks (xs @ ys) = go_tasks xs @ go_tasks ys"
  by (induction xs rule: go_tasks.induct) simp_all

lemma go_tasks_map_Go [simp]: "go_tasks (map Go ts) = ts"
  by (induction ts) simp_all

lemma inv_tasks_step:
  assumes "inv_tasks w" "step e w = Some w'" shows "inv_tasks w'"
proof (cases e)
  case Caller
  with assms(2) have "caller_step w = Some w'" by simp
  then show ?thesis
    by (cases rule: caller_step_cases) (use assms(1) in \<open>auto simp: inv_tasks_def spawn_def\<close>)
next
  case (Task i)
  with assms(2) have "task_step i w = Some w'" by simp
  then show ?thesis
    by (cases rule: task_step_cases) (use assms(1) in \<open>auto simp: inv_tasks_def\<close>)
next
  case (ParentCancel e c)
  with assms(2) have "parent_cancel e c w = Some w'" by simp
  then show ?thesis
    by (cases rule: parent_cancel_cases) (use assms(1) in \<open>simp add: inv_tasks_def\<close>)
qed

lemma step_parent_done:
  assumes "step e w = Some w'" "Err (parent w) \<noteq> None" shows "parent w' = parent w"
proof (cases e)
  case Caller
  with assms(1) have "caller_step w = Some w'" by simp
  then show ?thesis by (cases rule: caller_step_cases) auto
next
  case (Task i)
  with assms(1) have "task_step i w = Some w'" by simp
  then show ?thesis by (cases rule: task_step_cases) auto
next
  case (ParentCancel e c)
  with assms show ?thesis by (simp add: parent_cancel_def)
qed

lemma thread_step_parent:
  assumes "thread_event e" "step e w = Some w'"
  shows "parent w' = parent w"
proof (cases e)
  case Caller
  with assms(2) have "caller_step w = Some w'" by simp
  then show ?thesis by (cases rule: caller_step_cases) auto
next
  case (Task i)
  with assms(2) have "task_step i w = Some w'" by simp
  then show ?thesis by (cases rule: task_step_cases) auto
next
  case (ParentCancel e c)
  with assms(1) show ?thesis by simp
qed

lemma witness_kept:
  assumes "\<exists>g \<in> set (xs @ g0 # ys). ran g \<and> attempted g \<and> result g = x"
    "ran g0 \<and> attempted g0 \<longrightarrow> ran g1 \<and> attempted g1" "result g1 = result g0"
  shows "\<exists>g \<in> set (xs @ g1 # ys). ran g \<and> attempted g \<and> result g = x"
  using assms by auto

lemma inv_trigger_moved:
  assumes "inv_trigger w" "goroutines w = xs @ g # ys"
    "w' = w\<lparr>goroutines := xs @ g1 # ys\<rparr>"
    "ran g \<and> attempted g \<longrightarrow> ran g1 \<and> attempted g1" "result g1 = result g"
  shows "inv_trigger w'"
proof -
  have "\<exists>g \<in> set (xs @ g1 # ys). ran g \<and> attempted g \<and> result g = hd (cancel_attempts w)"
    if "Err (parent w) = None" "Err (the_ctx w) \<noteq> None"
    using witness_kept[OF _ assms(4,5)] assms(1,2) that by (simp add: inv_trigger_def)
  then show ?thesis using assms(3) by (simp add: inv_trigger_def)
qed

lemma inv_trigger_task:
  assumes "task_step i w = Some w'" "inv_trigger w" "inv_local w" "inv_cancel w" "inv_cfg w"
  shows "inv_trigger w'"
  using assms(1)
proof (cases rule: task_step_cases)
  case (cancel xs g ys)
  have l: "local_ok w g" using assms(3) cancel by (simp add: inv_local_def)
  then obtain x where x: "result g = Some x" using cancel by (auto simp: local_ok_def)
  have ih: "inv_history w" and idv: "inv_derived w" using assms(4) by (simp_all add: inv_cancel_def)
  have c: "cancel (failCanceler (runner w)) = Some Derived" "ctx (runner w) = Derived"
    using ih assms(5) cancel by (auto simp: inv_history_def inv_cfg_def split: if_splits)
  have tc: "the_ctx w = derived w" using c by (simp add: the_ctx_def)
  note D = inv_derivedD[OF idv c(2)]
  have p: "parent w' = parent w" using cancel by simp
  show ?thesis
  proof (cases "Err (the_ctx w) = None")
    case True
    then have "\<not> once (failCanceler (runner w))"
      using D(1) tc by auto
    then have "cancel_attempts w = []" using ih by (simp add: inv_history_def)
    then have h: "hd (cancel_attempts w') = result g" using cancel by simp
    have "ran g" using l cancel True by (simp add: local_ok_def skipped_def after_body_def)
    then have "ran (g\<lparr>pc := G_done\<rparr>) \<and> attempted (g\<lparr>pc := G_done\<rparr>)
                \<and> result (g\<lparr>pc := G_done\<rparr>) = hd (cancel_attempts w')"
      using x h by (simp add: attempted_def)
    moreover have "g\<lparr>pc := G_done\<rparr> \<in> set (goroutines w')" using cancel by simp
    ultimately show ?thesis unfolding inv_trigger_def by blast
  next
    case False
    show ?thesis unfolding inv_trigger_def
    proof (intro impI, elim conjE)
      assume live: "Err (parent w') = None"
      then have pl: "Err (parent w) = None" using p by simp
      then have "once (failCanceler (runner w))"
        using D(3) False tc by auto
      then have ne: "cancel_attempts w \<noteq> []" using ih by (simp add: inv_history_def)
      then have h: "hd (cancel_attempts w') = hd (cancel_attempts w)" using cancel by simp
      have "\<exists>g \<in> set (xs @ g # ys). ran g \<and> attempted g \<and> result g = hd (cancel_attempts w)"
        using assms(2) cancel pl False by (simp add: inv_trigger_def)
      moreover have "ran g \<and> attempted g \<longrightarrow>
                       ran (g\<lparr>pc := G_done\<rparr>) \<and> attempted (g\<lparr>pc := G_done\<rparr>)"
        by (simp add: attempted_def)
      moreover have "result (g\<lparr>pc := G_done\<rparr>) = result g" by simp
      ultimately have "\<exists>g \<in> set (xs @ g\<lparr>pc := G_done\<rparr> # ys).
                         ran g \<and> attempted g \<and> result g = hd (cancel_attempts w)"
        by (rule witness_kept)
      then show "\<exists>g \<in> set (goroutines w').
                   ran g \<and> attempted g \<and> result g = hd (cancel_attempts w')"
        using cancel h by simp
    qed
  qed
next
  case (check_skip xs g ys)
  then show ?thesis
    by (intro inv_trigger_moved[OF assms(2) check_skip(1) check_skip(5)]) (simp_all add: attempted_def)
next
  case (check_body xs g ys)
  then show ?thesis
    by (intro inv_trigger_moved[OF assms(2) check_body(1) check_body(5)]) (simp_all add: attempted_def)
next
  case (skip xs g ys)
  have "local_ok w g" using assms(3) skip by (simp add: inv_local_def)
  then have n: "\<not> ran g" using skip by (simp add: local_ok_def after_body_def)
  have "\<exists>g' \<in> set (xs @ g\<lparr>result := causeForTaskSkip (the_ctx w), pc := G_defer\<rparr> # ys).
          ran g' \<and> attempted g' \<and> result g' = hd (cancel_attempts w)"
    if "Err (parent w) = None" "Err (the_ctx w) \<noteq> None"
    using assms(2) skip(1) that n by (auto simp: inv_trigger_def)
  then show ?thesis using skip by (simp add: inv_trigger_def)
next
  case (body xs g ys)
  have "\<not> attempted g" using body by (simp add: attempted_def)
  then have "\<exists>g' \<in> set (xs @ g\<lparr>result := f g, pc := G_defer, ran := True\<rparr> # ys).
          ran g' \<and> attempted g' \<and> result g' = hd (cancel_attempts w)"
    if "Err (parent w) = None" "Err (the_ctx w) \<noteq> None"
    using assms(2) body(1) that by (auto simp: inv_trigger_def)
  then show ?thesis using body by (simp add: inv_trigger_def)
next
  case (defer_append xs g ys)
  have "\<not> attempted g" using defer_append by (simp add: attempted_def)
  then have "\<exists>g' \<in> set (xs @ g\<lparr>pc := (if cancel (failCanceler (runner w)) \<noteq> None
                                               then G_cancel else G_done)\<rparr> # ys).
          ran g' \<and> attempted g' \<and> result g' = hd (cancel_attempts w)"
    if "Err (parent w) = None" "Err (the_ctx w) \<noteq> None"
    using assms(2) defer_append(1) that by (auto simp: inv_trigger_def)
  then show ?thesis using defer_append by (simp add: inv_trigger_def)
next
  case (defer_nil xs g ys)
  then show ?thesis
    by (intro inv_trigger_moved[OF assms(2) defer_nil(1) defer_nil(5)]) (simp_all add: attempted_def)
next
  case (wg_done xs g ys)
  have "ran g \<and> attempted g \<longrightarrow> ran (g\<lparr>pc := G_dec\<rparr>) \<and> attempted (g\<lparr>pc := G_dec\<rparr>)"
    by (simp add: attempted_def)
  then have "\<exists>g' \<in> set (xs @ g\<lparr>pc := G_dec\<rparr> # ys).
          ran g' \<and> attempted g' \<and> result g' = hd (cancel_attempts w)"
    if "Err (parent w) = None" "Err (the_ctx w) \<noteq> None"
    using witness_kept[of xs g ys "hd (cancel_attempts w)" "g\<lparr>pc := G_dec\<rparr>"]
      assms(2) wg_done(1) that by (simp add: inv_trigger_def)
  then show ?thesis using wg_done by (simp add: inv_trigger_def)
next
  case (sem_dec xs g ys r)
  have "ran g \<and> attempted g \<longrightarrow> ran (g\<lparr>pc := G_exit\<rparr>) \<and> attempted (g\<lparr>pc := G_exit\<rparr>)"
    by (simp add: attempted_def)
  then have "\<exists>g' \<in> set (xs @ g\<lparr>pc := G_exit\<rparr> # ys).
          ran g' \<and> attempted g' \<and> result g' = hd (cancel_attempts w)"
    if "Err (parent w) = None" "Err (the_ctx w) \<noteq> None"
    using witness_kept[of xs g ys "hd (cancel_attempts w)" "g\<lparr>pc := G_exit\<rparr>"]
      assms(2) sem_dec(1) that by (simp add: inv_trigger_def)
  then show ?thesis using sem_dec maybeSem_ctx(1)[OF sem_dec(4)] by (simp add: inv_trigger_def)
qed

lemma inv_trigger_step:
  assumes "inv_trigger w" "inv_local w" "inv_cancel w" "inv_cfg w" "step e w = Some w'"
  shows "inv_trigger w'"
proof (cases e)
  case Caller
  with assms(5) have "caller_step w = Some w'" by simp
  then show ?thesis
  proof (cases rule: caller_step_cases)
    case (admit t rest r)
    then show ?thesis using assms(1) maybeSem_ctx(2)[OF admit(3)] by (auto simp: inv_trigger_def)
  qed (use assms(1) in \<open>auto simp: inv_trigger_def\<close>)
next
  case (Task i)
  with assms show ?thesis by (auto intro: inv_trigger_task)
next
  case (ParentCancel e c)
  with assms(5) have "parent_cancel e c w = Some w'" by simp
  then show ?thesis by (cases rule: parent_cancel_cases) (simp add: inv_trigger_def)
qed

lemma maybeSem_wg:
  "maybeSemDec r = Some r' \<Longrightarrow> wg r' = wg r \<and> errs r' = errs r"
  "maybeSemInc r = Some r' \<Longrightarrow> wg r' = wg r \<and> errs r' = errs r"
  by (auto simp: maybeSemDec_def maybeSemInc_def split: if_splits option.splits)

lemma inv_caller_caller:
  assumes "caller_step w = Some w'" "inv_caller w" "inv_errs w" shows "inv_caller w'"
  using assms(1)
proof (cases rule: caller_step_cases)
  case (admit t rest r)
  then show ?thesis using assms(2) maybeSem_wg(2)[OF admit(3)] by (auto simp: inv_caller_def)
next
  case (clone rest)
  then show ?thesis using assms(2,3) by (auto simp: inv_caller_def inv_errs_def)
qed (use assms(2) in \<open>auto simp: inv_caller_def\<close>)

lemma inv_caller_env:
  assumes "parent_cancel e c w = Some w'" "inv_caller w" shows "inv_caller w'"
  using assms(1)
  by (cases rule: parent_cancel_cases) (use assms(2) in \<open>auto simp: inv_caller_def\<close>)

lemma cnt_zero: "cnt P xs = 0 \<Longrightarrow> x \<in> set xs \<Longrightarrow> \<not> P x"
  by (induction xs) (auto split: if_splits)

lemma inv_caller_task:
  assumes "task_step i w = Some w'" "inv_caller w" "inv_count w" shows "inv_caller w'"
proof -
  have quiet: "\<And>g. wg (runner w) = 0 \<Longrightarrow> g \<in> set (goroutines w) \<Longrightarrow> pc g = G_dec \<or> pc g = G_exit"
    using assms(3) cnt_zero[of "\<lambda>g. pc g \<noteq> G_dec \<and> pc g \<noteq> G_exit" "goroutines w"]
    by (auto simp: inv_count_def)
  from assms(1) show ?thesis
  proof (cases rule: task_step_cases)
    case (defer_append xs g ys)
    then have "wg (runner w) \<noteq> 0" using quiet[of g] by auto
    then show ?thesis using assms(2) defer_append by (auto simp: inv_caller_def)
  next
    case (sem_dec xs g ys r)
    then show ?thesis using assms(2) maybeSem_wg(1)[OF sem_dec(4)] by (auto simp: inv_caller_def)
  qed (use assms(2) in \<open>auto simp: inv_caller_def\<close>)
qed

lemma inv_step:
  assumes "inv w" "step e w = Some w'" shows "inv w'"
proof -
  have "inv_count w'" using assms by (auto simp: inv_def intro: inv_count_step)
  moreover have "inv_cfg w'" using assms by (auto simp: inv_def intro: inv_cfg_step)
  moreover have "inv_local w'" using assms by (auto simp: inv_def intro: inv_local_step)
  moreover have "inv_errs w'" using assms by (auto simp: inv_def intro: inv_errs_step)
  moreover have "inv_cancel w'" using assms by (auto simp: inv_def intro: inv_cancel_step)
  moreover have "inv_caller w'" using assms
    by (cases e) (auto simp: inv_def intro: inv_caller_caller inv_caller_task inv_caller_env)
  moreover have "inv_tasks w'" using assms by (auto simp: inv_def intro: inv_tasks_step)
  moreover have "inv_trigger w'" using assms by (auto simp: inv_def intro: inv_trigger_step)
  ultimately show ?thesis by (simp add: inv_def)
qed

lemma inv_run: "inv w \<Longrightarrow> run es w = Some w' \<Longrightarrow> inv w'"
  using run_invariant[of inv w es w'] inv_step by blast

lemma New_cases:
  assumes "New c opts = Some (r, d)"
  shows "wg r = 0 \<and> errs r = [] \<and> failCanceler r =
           \<lparr>cancel = (if CancelOnFailure (configure opts)
                       then Some Derived else None), once = False\<rparr>
         \<and> ctx r = (if CancelOnFailure (configure opts)
                    then Derived else Parent)
         \<and> d = (if CancelOnFailure (configure opts)
                then WithCancelCause c else Background)
         \<and> sem r = (if 0 < Limit (configure opts)
                    then Some \<lparr>cap = unat (Limit (configure opts)),
                               len = 0\<rparr>
                    else None)
         \<and> unat (Limit (configure opts)) < 2 ^ 63"
  using assms
  by (auto simp: New_def Let_def make_chan_def word_gt_0 split: if_splits option.splits)

lemma inv_init:
  assumes "init c opts p = Some w0" shows "inv w0"
proof -
  from assms obtain r d where n: "New c opts = Some (r, d)"
    and w0: "w0 = \<lparr>runner = r, parent = c, derived = d, goroutines = [], prog = p,
                cpos = C_start, returned = [], executed = [], cancel_attempts = [],
                cancel_calls = []\<rparr>"
    by (auto simp: init_def split: option.splits)
  note nc = New_cases[OF n]
  have i1: "inv_count w0" using nc w0 by (auto simp: inv_count_def word_gt_0 unat_gt_0 split: option.splits if_splits)
  have i2: "inv_cfg w0" using nc w0 by (simp add: inv_cfg_def)
  have i3: "inv_local w0" using w0 by (simp add: inv_local_def)
  have i4: "inv_errs w0" using nc w0 by (simp add: inv_errs_def)
  have i5: "inv_history w0" using nc w0 by (simp add: inv_history_def)
  have i6: "inv_derived w0"
  proof (rule inv_derivedI)
    assume "ctx (runner w0) = Derived"
    then have d: "derived w0 = WithCancelCause c" using nc w0 by (simp split: if_splits)
    have o: "\<not> once (failCanceler (runner w0))" and p: "parent w0 = c" using nc w0 by simp_all
    show "Err (derived w0) \<noteq> None" if "once (failCanceler (runner w0))" using that o by simp
    show "Err (derived w0) \<noteq> None" if "Err (parent w0) \<noteq> None"
      using that unfolding d p by (auto simp: WithCancelCause_def cancelCtx_cancel_def)
    show "once (failCanceler (runner w0))
           \<and> derived w0 = \<lparr>Err = Some Canceled, Cause = hd (cancel_attempts w0)\<rparr>"
      if "Err (derived w0) \<noteq> None" "Err (parent w0) = None"
      using that unfolding d p by (simp add: WithCancelCause_def Background_def)
    show "derived w0 = parent w0" if "Err (parent w0) \<noteq> None" "Cause (parent w0) \<noteq> None"
      using that unfolding d p
      by (cases c) (auto simp: WithCancelCause_def Background_def cancelCtx_cancel_def)
  qed
  have i7: "inv_caller w0" using nc w0 by (simp add: inv_caller_def)
  have i8: "inv_tasks w0" using w0 by (simp add: inv_tasks_def)
  have i9: "inv_trigger w0" using nc w0
    by (auto simp: inv_trigger_def the_ctx_def WithCancelCause_def Background_def
             split: option.splits if_splits)
  from i1 i2 i3 i4 i5 i6 i7 i8 i9 show ?thesis by (simp add: inv_def inv_cancel_def)
qed

lemma executeE:
  assumes "execute c opts p es = Some w"
  obtains w0 where "init c opts p = Some w0" "run es w0 = Some w"
  using assms by (auto simp: execute_def split: option.splits)

lemma reachable_inv:
  assumes "execute c opts p es = Some w" shows "inv w"
proof -
  from assms obtain w0 where "init c opts p = Some w0" "run es w0 = Some w"
    by (rule executeE)
  then show ?thesis using inv_init inv_run by blast
qed

section \<open>What a run never changes\<close>

lemma maybeSem_cap:
  "maybeSemDec r = Some r' \<Longrightarrow> map_option cap (sem r') = map_option cap (sem r)"
  "maybeSemInc r = Some r' \<Longrightarrow> map_option cap (sem r') = map_option cap (sem r)"
  by (auto simp: maybeSemDec_def maybeSemInc_def split: if_splits option.splits)

lemma same_config_step:
  assumes "step e w = Some w'" "inv_caller w" shows "same_config w w'"
proof (cases e)
  case Caller
  with assms(1) have "caller_step w = Some w'" by simp
  then show ?thesis
  proof (cases rule: caller_step_cases)
    case (admit t rest r)
    then show ?thesis
      using maybeSem_cap(2)[OF admit(3)] maybeSem_ctx(2)[OF admit(3)]
        maybeSem_failCanceler(2)[OF admit(3)]
      by (simp add: same_config_def)
  qed (simp_all add: same_config_def)
next
  case (Task i)
  with assms(1) have "task_step i w = Some w'" by simp
  then show ?thesis
  proof (cases rule: task_step_cases)
    case (sem_dec xs g ys r)
    then show ?thesis
      using maybeSem_cap(1)[OF sem_dec(4)] maybeSem_ctx(1)[OF sem_dec(4)]
        maybeSem_failCanceler(1)[OF sem_dec(4)]
      by (simp add: same_config_def)
  qed (simp_all add: same_config_def)
next
  case (ParentCancel e c)
  with assms(1) have "parent_cancel e c w = Some w'" by simp
  then show ?thesis by (cases rule: parent_cancel_cases) (simp add: same_config_def)
qed

lemma same_config_run:
  "inv w \<Longrightarrow> run es w = Some w' \<Longrightarrow> same_config w w'"
proof (induction es arbitrary: w)
  case Nil
  then show ?case by (simp add: same_config_def)
next
  case (Cons e es)
  from Cons.prems(2) obtain w1 where s: "step e w = Some w1" and r: "run es w1 = Some w'"
    by (auto split: option.splits)
  have "same_config w w1" using s Cons.prems(1) by (auto simp: inv_def intro: same_config_step)
  moreover have "same_config w1 w'" using Cons.IH[OF inv_step[OF Cons.prems(1) s] r] .
  ultimately show ?case by (simp add: same_config_def)
qed

lemma execute_config:
  assumes "execute c opts p es = Some w"
  shows "ctx (runner w) = (if CancelOnFailure (configure opts) then Derived else Parent)"
    and "cancel (failCanceler (runner w)) =
           (if CancelOnFailure (configure opts) then Some Derived else None)"
    and "map_option cap (sem (runner w)) =
           (if 0 < Limit (configure opts) then Some (unat (Limit (configure opts))) else None)"
    and "executed w @ prog w = p"
proof -
  from assms obtain w0 where i: "init c opts p = Some w0" and r: "run es w0 = Some w"
    by (rule executeE)
  from i obtain r0 d where n: "New c opts = Some (r0, d)"
    and w0: "w0 = \<lparr>runner = r0, parent = c, derived = d, goroutines = [], prog = p,
                cpos = C_start, returned = [], executed = [], cancel_attempts = [],
                cancel_calls = []\<rparr>"
    by (auto simp: init_def split: option.splits)
  note nc = New_cases[OF n]
  have sc: "same_config w0 w" using same_config_run[OF inv_init[OF i] r] .
  show "ctx (runner w) = (if CancelOnFailure (configure opts) then Derived else Parent)"
    using sc nc w0 by (simp add: same_config_def)
  show "cancel (failCanceler (runner w)) =
           (if CancelOnFailure (configure opts) then Some Derived else None)"
    using sc nc w0 by (simp add: same_config_def)
  show "map_option cap (sem (runner w)) =
           (if 0 < Limit (configure opts) then Some (unat (Limit (configure opts))) else None)"
    using sc nc w0 by (simp add: same_config_def)
  show "executed w @ prog w = p"
    using sc w0 by (simp add: same_config_def)
qed

section \<open>Progress and termination\<close>

lemma cnt_pos: "0 < cnt P xs \<Longrightarrow> \<exists>i<length xs. P (xs ! i)"
proof (induction xs)
  case Nil
  then show ?case by simp
next
  case (Cons x xs)
  show ?case
  proof (cases "P x")
    case True
    then show ?thesis by (intro exI[of _ 0]) simp
  next
    case False
    with Cons obtain i where "i < length xs" "P (xs ! i)" by auto
    then show ?thesis by (intro exI[of _ "Suc i"]) simp
  qed
qed

lemma cnt_nth: "i < length xs \<Longrightarrow> P (xs ! i) \<Longrightarrow> 0 < cnt P xs"
proof (induction xs arbitrary: i)
  case Nil
  then show ?case by simp
next
  case (Cons x xs)
  then show ?case by (cases i) auto
qed

lemma task_enabled:
  assumes "inv_count w" "i < length (goroutines w)" "pc (goroutines w ! i) \<noteq> G_exit"
  shows "task_step i w \<noteq> None"
proof (cases "pc (goroutines w ! i)")
  case G_done
  then have "0 < cnt (\<lambda>g. pc g \<noteq> G_dec \<and> pc g \<noteq> G_exit) (goroutines w)"
    using assms(2) by (intro cnt_nth[of i]) simp_all
  then have "wg (runner w) \<noteq> 0" using assms(1) by (simp add: inv_count_def)
  then show ?thesis using assms(2) G_done by (simp add: task_step_def go_func_def)
next
  case G_dec
  have "0 < cnt (\<lambda>g. pc g \<noteq> G_exit) (goroutines w)"
    using assms(2,3) by (intro cnt_nth[of i]) simp_all
  then have "maybeSemDec (runner w) \<noteq> None"
    using assms(1) by (auto simp: inv_count_def maybeSemDec_def hasLimit_def split: option.splits)
  then show ?thesis using assms(2) G_dec by (auto simp: task_step_def go_func_def)
qed (use assms in \<open>auto simp: task_step_def go_func_def\<close>)

lemma progress:
  assumes "inv w" "\<not> finished w"
  shows "\<exists>e. thread_event e \<and> step e w \<noteq> None"
proof -
  have ic: "inv_count w" and ica: "inv_caller w" using assms(1) by (simp_all add: inv_def)
  have busy: "\<exists>e. thread_event e \<and> step e w \<noteq> None"
    if "0 < cnt (\<lambda>g. pc g \<noteq> G_exit) (goroutines w)"
  proof -
    from cnt_pos[OF that] obtain i where "i < length (goroutines w)" "pc (goroutines w ! i) \<noteq> G_exit"
      by blast
    then have "step (Task i) w \<noteq> None" using task_enabled[OF ic] by simp
    then show ?thesis by (intro exI[of _ "Task i"]) simp
  qed
  show ?thesis
  proof (cases "caller_step w = None")
    case False
    then show ?thesis by (intro exI[of _ Caller]) simp
  next
    case True
    from assms(2) obtain c rest where p: "prog w = c # rest"
      by (cases "prog w") (auto simp: finished_def)
    show ?thesis
    proof (cases c)
      case (Go t)
      with True p ica have "cpos w = C_start" "maybeSemInc (runner w) = None"
        by (auto simp: caller_step_def inv_caller_def split: cpc.splits option.splits)
      then have "0 < cnt (\<lambda>g. pc g \<noteq> G_exit) (goroutines w)"
        using ic by (auto simp: maybeSemInc_def hasLimit_def inv_count_def split: option.splits if_splits)
      then show ?thesis by (rule busy)
    next
      case Wait
      with True p ica have "cpos w = C_start" "wg (runner w) \<noteq> 0"
        by (auto simp: caller_step_def inv_caller_def split: cpc.splits option.splits if_splits)
      then have "0 < cnt (\<lambda>g. pc g \<noteq> G_dec \<and> pc g \<noteq> G_exit) (goroutines w)"
        using ic by (auto simp: inv_count_def)
      moreover have "cnt (\<lambda>g. pc g \<noteq> G_dec \<and> pc g \<noteq> G_exit) (goroutines w)
                       \<le> cnt (\<lambda>g. pc g \<noteq> G_exit) (goroutines w)"
        by (rule cnt_mono) simp
      ultimately have "0 < cnt (\<lambda>g. pc g \<noteq> G_exit) (goroutines w)" by simp
      then show ?thesis by (rule busy)
    qed
  qed
qed

lemma work_decreases:
  assumes "thread_event e" "step e w = Some w'"
  shows "work w' < work w"
proof (cases e)
  case Caller
  with assms(2) have "caller_step w = Some w'" by simp
  then show ?thesis
    by (cases rule: caller_step_cases) (auto simp: work_def spawn_def)
next
  case (Task i)
  with assms(2) have "task_step i w = Some w'" by simp
  then show ?thesis
    by (cases rule: task_step_cases) (auto simp: work_def)
next
  case (ParentCancel e c)
  with assms(1) show ?thesis by simp
qed

lemma run_append: "run (xs @ ys) w = (case run xs w of None \<Rightarrow> None | Some w' \<Rightarrow> run ys w')"
  by (induction xs arbitrary: w) (auto split: option.splits)

lemma completion:
  assumes "inv w"
  shows "\<exists>es w'. list_all thread_event es \<and> run es w = Some w' \<and> finished w' \<and> parent w' = parent w"
  using assms
proof (induction "work w" arbitrary: w rule: less_induct)
  case less
  show ?case
  proof (cases "finished w")
    case True
    then show ?thesis by (intro exI[of _ "[]"] exI[of _ w]) simp
  next
    case False
    from progress[OF less.prems False] obtain e w1 where
      e: "thread_event e" "step e w = Some w1" by auto
    have "work w1 < work w" using e by (rule work_decreases)
    moreover have "inv w1" using less.prems e(2) by (rule inv_step)
    ultimately obtain es w' where
      r: "list_all thread_event es" "run es w1 = Some w'" "finished w'" "parent w' = parent w1"
      using less.hyps by blast
    have "parent w1 = parent w" using e by (rule thread_step_parent)
    with r e show ?thesis by (intro exI[of _ "e # es"] exI[of _ w']) simp
  qed
qed

lemma bounded_runs:
  "list_all thread_event es \<Longrightarrow> run es w = Some w' \<Longrightarrow> length es + work w' \<le> work w"
proof (induction es arbitrary: w)
  case Nil
  then show ?case by simp
next
  case (Cons e es)
  from Cons.prems obtain w1 where s: "step e w = Some w1" and r: "run es w1 = Some w'"
    by (auto split: option.splits)
  have "work w1 < work w" using Cons.prems(1) s by (auto intro: work_decreases)
  moreover have "length es + work w' \<le> work w1" using Cons.IH[OF _ r] Cons.prems(1) by simp
  ultimately show ?case by simp
qed

section \<open>The state after the last join\<close>

lemma final_state:
  assumes "execute c opts (p @ [Wait]) es = Some w" and "finished w"
  shows "returned w \<noteq> []" and "last (returned w) = errs (runner w)"
    and "\<forall>g \<in> set (goroutines w). pc g = G_dec \<or> pc g = G_exit"
    and "map f (goroutines w) = go_tasks p"
proof -
  have i: "inv w" using reachable_inv[OF assms(1)] .
  have p: "prog w = []" using assms(2) by (simp add: finished_def)
  then have ex: "executed w = p @ [Wait]" using execute_config(4)[OF assms(1)] by simp
  have ica: "inv_caller w" using i by (simp add: inv_def)
  have cp: "cpos w = C_start" using ica p by (cases "cpos w") (auto simp: inv_caller_def)
  have j: "wg (runner w) = 0 \<and> returned w \<noteq> [] \<and> last (returned w) = errs (runner w)"
    using ica cp ex by (simp add: inv_caller_def)
  then show "returned w \<noteq> []" and "last (returned w) = errs (runner w)" by simp_all
  have "cnt (\<lambda>g. pc g \<noteq> G_dec \<and> pc g \<noteq> G_exit) (goroutines w) = 0"
    using i j by (simp add: inv_def inv_count_def)
  then show "\<forall>g \<in> set (goroutines w). pc g = G_dec \<or> pc g = G_exit"
    using cnt_zero[of "\<lambda>g. pc g \<noteq> G_dec \<and> pc g \<noteq> G_exit" "goroutines w"] by auto
  show "map f (goroutines w) = go_tasks p"
    using i ex by (simp add: inv_def inv_tasks_def)
qed

lemma none_skipped:
  assumes "inv w" "Err (the_ctx w) = None" "g \<in> set (goroutines w)"
    "pc g = G_dec \<or> pc g = G_exit"
  shows "ran g" and "result g = f g" and "appended g \<longleftrightarrow> f g \<noteq> None"
proof -
  have l: "local_ok w g" using assms(1,3) by (simp add: inv_def inv_local_def)
  have a: "after_body g" using assms(4) by (auto simp: after_body_def)
  show r: "ran g" using l a assms(2) by (auto simp: local_ok_def skipped_def)
  show e: "result g = f g" using l a r by (simp add: local_ok_def)
  show "appended g \<longleftrightarrow> f g \<noteq> None" using e assms(4) by (auto simp: appended_def)
qed

lemma collected_results:
  "\<forall>g \<in> set gs. result g = f g \<and> (appended g \<longleftrightarrow> f g \<noteq> None) \<Longrightarrow>
   map result (filter appended gs) = filter (\<lambda>t. t \<noteq> None) (map f gs)"
  by (induction gs) auto

lemma count_successes:
  "\<forall>g \<in> set gs. ran g \<and> result g = f g \<Longrightarrow>
   cnt (\<lambda>g. ran g \<and> result g = None) gs = length gs - cnt (\<lambda>t. t \<noteq> None) (map f gs)"
proof (induction gs)
  case Nil
  then show ?case by simp
next
  case (Cons g gs)
  have "cnt (\<lambda>t. t \<noteq> None) (map f gs) \<le> length gs"
    by (simp add: cnt_def)
  with Cons show ?case by auto
qed

lemma length_filter_cnt: "length (filter P xs) = cnt P xs"
  by (simp add: cnt_def)

lemma complete_execution:
  assumes "init c opts p \<noteq> None"
  shows "\<exists>es w. list_all thread_event es \<and> execute c opts p es = Some w \<and> finished w
                 \<and> parent w = c"
proof -
  from assms obtain w0 where i: "init c opts p = Some w0" by blast
  then have "parent w0 = c" by (auto simp: init_def split: option.splits)
  with completion[OF inv_init[OF i]] i show ?thesis
    by (auto simp: execute_def)
qed

lemma execution_length:
  assumes "execute c opts p es = Some w" "list_all thread_event es"
  shows "length es \<le> sum_list (map cost_cmd p)"
proof -
  from assms(1) obtain w0 where i: "init c opts p = Some w0" and r: "run es w0 = Some w"
    by (rule executeE)
  have "work w0 = sum_list (map cost_cmd p)"
    using i by (auto simp: init_def work_def split: option.splits)
  with bounded_runs[OF assms(2) r] show ?thesis by simp
qed

lemma cost_batch: "sum_list (map cost_cmd (map Go ts @ [Wait])) = 9 * length ts + 2"
  by (induction ts) simp_all

lemma execute_append:
  "execute c opts p (es @ es') =
     (case execute c opts p es of None \<Rightarrow> None | Some w \<Rightarrow> run es' w)"
  by (simp add: execute_def run_append split: option.splits)

lemma reachable_completion:
  assumes "execute c opts p es = Some w"
  shows "\<exists>es' w'. list_all thread_event es' \<and> execute c opts p (es @ es') = Some w'
                   \<and> finished w' \<and> parent w' = parent w"
  using completion[OF reachable_inv[OF assms]] assms by (simp add: execute_append)

lemma reachable_progress:
  assumes "execute c opts p es = Some w" "\<not> finished w"
  shows "\<exists>e. thread_event e \<and> step e w \<noteq> None"
  using progress[OF reachable_inv[OF assms(1)] assms(2)] .

text \<open>
  What a joined batch returns when no task is skipped because of the caller's context.
\<close>

lemma batch_results:
  assumes "execute c opts (map Go ts @ [Wait]) es = Some w" and "finished w"
    and "\<not> CancelOnFailure (configure opts)" and "Err (parent w) = None"
  shows "returned w \<noteq> []
         \<and> length (last (returned w)) = cnt (\<lambda>t. t \<noteq> None) ts
         \<and> mset (last (returned w)) = mset (filter (\<lambda>t. t \<noteq> None) ts)
         \<and> map f (goroutines w) = ts
         \<and> list_all ran (goroutines w)
         \<and> cnt (\<lambda>g. ran g \<and> result g = None) (goroutines w)
             = length ts - cnt (\<lambda>t. t \<noteq> None) ts"
proof -
  have i: "inv w" using reachable_inv[OF assms(1)] .
  note fs = final_state[OF assms(1,2)]
  have tasks: "map f (goroutines w) = ts" using fs(4) by simp
  have "ctx (runner w) = Parent" using execute_config(1)[OF assms(1)] assms(3) by simp
  then have live: "Err (the_ctx w) = None" using assms(4) by (simp add: the_ctx_def)
  have all: "\<forall>g \<in> set (goroutines w). ran g \<and> result g = f g \<and> (appended g \<longleftrightarrow> f g \<noteq> None)"
    using none_skipped[OF i live] fs(3) by blast
  have "mset (errs (runner w)) = mset (map result (filter appended (goroutines w)))"
    using i by (simp add: inv_def inv_errs_def)
  also have "map result (filter appended (goroutines w))
               = filter (\<lambda>t. t \<noteq> None) (map f (goroutines w))"
    using all by (intro collected_results) blast
  finally have m: "mset (last (returned w)) = mset (filter (\<lambda>t. t \<noteq> None) ts)"
    using fs(2) tasks by simp
  have "length (last (returned w)) = length (filter (\<lambda>t. t \<noteq> None) ts)"
    using m by (metis size_mset)
  then have l: "length (last (returned w)) = cnt (\<lambda>t. t \<noteq> None) ts"
    by (simp add: length_filter_cnt)
  have r: "list_all ran (goroutines w)" using all by (simp add: list_all_iff)
  have "cnt (\<lambda>g. ran g \<and> result g = None) (goroutines w)
          = length (goroutines w) - cnt (\<lambda>t. t \<noteq> None) (map f (goroutines w))"
    using all by (intro count_successes) blast
  moreover have "length (goroutines w) = length ts" using tasks by (metis length_map)
  ultimately have s: "cnt (\<lambda>g. ran g \<and> result g = None) (goroutines w)
             = length ts - cnt (\<lambda>t. t \<noteq> None) ts"
    using tasks by simp
  from fs(1) l m tasks r s show ?thesis by blast
qed

lemma live_without_failure:
  assumes "inv w" "Err (parent w) = None" "\<forall>g \<in> set (goroutines w). f g = None"
  shows "Err (the_ctx w) = None"
proof (rule ccontr)
  assume "Err (the_ctx w) \<noteq> None"
  then obtain g where g: "g \<in> set (goroutines w)" "ran g" "attempted g"
    using assms(1,2) by (auto simp: inv_def inv_trigger_def)
  have "local_ok w g" using assms(1) g(1) by (simp add: inv_def inv_local_def)
  then have "result g = f g" using g(2,3) by (auto simp: local_ok_def attempted_def after_body_def)
  then show False using g assms(3) by (auto simp: attempted_def)
qed

lemma nil_batch_results:
  assumes "execute c opts (map Go (replicate n None) @ [Wait]) es = Some w" and "finished w"
    and "Err (parent w) = None"
  shows "returned w \<noteq> [] \<and> last (returned w) = []
         \<and> length (goroutines w) = n
         \<and> list_all ran (goroutines w)
         \<and> cnt ran (goroutines w) = n"
proof -
  have i: "inv w" using reachable_inv[OF assms(1)] .
  note fs = final_state[OF assms(1,2)]
  have tasks: "map f (goroutines w) = replicate n None"
    using fs(4) by (simp only: go_tasks_map_Go)
  then have len: "length (goroutines w) = n" by (metis length_map length_replicate)
  have nil: "\<forall>g \<in> set (goroutines w). f g = None"
  proof
    fix g assume "g \<in> set (goroutines w)"
    then have "f g \<in> set (map f (goroutines w))" by simp
    then show "f g = None" unfolding tasks by simp
  qed
  have live: "Err (the_ctx w) = None" using live_without_failure[OF i assms(3) nil] .
  have all: "\<forall>g \<in> set (goroutines w). ran g \<and> result g = f g \<and> (appended g \<longleftrightarrow> f g \<noteq> None)"
    using none_skipped[OF i live] fs(3) by blast
  then have "filter appended (goroutines w) = []" using nil by (simp add: filter_empty_conv)
  then have "mset (errs (runner w)) = {#}"
    using i by (simp add: inv_def inv_errs_def)
  then have e: "last (returned w) = []" using fs(2) by simp
  have r: "list_all ran (goroutines w)" using all by (simp add: list_all_iff)
  then have "filter ran (goroutines w) = goroutines w" by (simp add: list_all_iff)
  then have k: "cnt ran (goroutines w) = n" using len by (simp add: cnt_def)
  from fs(1) e len r k show ?thesis by blast
qed

lemma causeForTaskSkip_eq:
  "causeForTaskSkip x = (if is_cancellation (Cause x) then Cause x else Some Canceled)"
  by (simp add: causeForTaskSkip_def is_cancellation_def Let_def)

lemma is_cancellation_simps [simp]:
  "is_cancellation (Some Canceled)" "is_cancellation (Some DeadlineExceeded)"
  "\<not> is_cancellation (Some (ErrorString n))" "\<not> is_cancellation None"
  by (simp_all add: is_cancellation_def errors_Is_def)

lemma appended_recorded:
  assumes "inv_errs w" "g \<in> set (goroutines w)" "appended g"
  shows "result g \<in> set (errs (runner w))"
proof -
  have "result g \<in> set (map result (filter appended (goroutines w)))"
    using assms(2,3) by auto
  then have "result g \<in># mset (errs (runner w))"
    using assms(1) by (simp add: inv_errs_def)
  then show ?thesis by simp
qed

text \<open>The result of a skipped task, in every state of every execution.\<close>

lemma skip_result:
  assumes "execute c opts p es = Some w" and "g \<in> set (goroutines w)" and "skipped g"
  shows "(is_cancellation (Cause (the_ctx w)) \<longrightarrow> result g = Cause (the_ctx w))
         \<and> (\<not> is_cancellation (Cause (the_ctx w)) \<longrightarrow>
               result g = Some Canceled \<and> result g \<noteq> Cause (the_ctx w))
         \<and> (appended g \<longrightarrow> result g \<in> set (errs (runner w)))
         \<and> causeForTaskSkip x = (if is_cancellation (Cause x) then Cause x else Some Canceled)
         \<and> causeForTaskSkip \<lparr>Err = Some Canceled, Cause = Some Canceled\<rparr> = Some Canceled
         \<and> causeForTaskSkip \<lparr>Err = Some DeadlineExceeded, Cause = Some DeadlineExceeded\<rparr>
             = Some DeadlineExceeded
         \<and> causeForTaskSkip \<lparr>Err = Some Canceled, Cause = Some (ErrorString n)\<rparr>
             = Some Canceled"
proof -
  have i: "inv w" using reachable_inv[OF assms(1)] .
  then have "local_ok w g" using assms(2) by (simp add: inv_def inv_local_def)
  then have r: "result g = causeForTaskSkip (the_ctx w)"
    using assms(3) by (simp add: local_ok_def)
  have a: "is_cancellation (Cause (the_ctx w)) \<longrightarrow> result g = Cause (the_ctx w)"
    using r by (simp add: causeForTaskSkip_eq)
  have b: "\<not> is_cancellation (Cause (the_ctx w)) \<longrightarrow>
               result g = Some Canceled \<and> result g \<noteq> Cause (the_ctx w)"
    using r is_cancellation_simps(1) by (cases "Cause (the_ctx w) = Some Canceled") (auto simp: causeForTaskSkip_eq)
  have d: "appended g \<longrightarrow> result g \<in> set (errs (runner w))"
    using i assms(2) by (auto simp: inv_def intro: appended_recorded)
  have e: "causeForTaskSkip x = (if is_cancellation (Cause x) then Cause x else Some Canceled)
         \<and> causeForTaskSkip \<lparr>Err = Some Canceled, Cause = Some Canceled\<rparr> = Some Canceled
         \<and> causeForTaskSkip \<lparr>Err = Some DeadlineExceeded, Cause = Some DeadlineExceeded\<rparr>
             = Some DeadlineExceeded
         \<and> causeForTaskSkip \<lparr>Err = Some Canceled, Cause = Some (ErrorString n)\<rparr>
             = Some Canceled"
    by (simp add: causeForTaskSkip_eq)
  from a b d e show ?thesis by blast
qed

section \<open>The claims\<close>

lemma causeForTaskSkip_not_nil: "causeForTaskSkip x \<noteq> None"
  by (auto simp: causeForTaskSkip_def Let_def errors_Is_def split: option.splits)

lemma replicate_numeral_step: "replicate (numeral k) x = x # replicate (pred_numeral k) x"
  by (simp add: numeral_eq_Suc)

lemmas run_defs =
  execute_def init_def New_def configure_def make_chan_def WithLimit_def WithCancelOnFailure_def
  WithCancelCause_def Background_def cancelCtx_cancel_def steps_def caller_step_def
  task_step_def go_func_def parent_cancel_def Cancel_def maybeSemInc_def maybeSemDec_def
  hasLimit_def spawn_def the_ctx_def ShouldCancel_def Append_def Clone_def causeForTaskSkip_def
  errors_Is_def Let_def replicate_numeral_step

lemma execute_two_tasks:
  "execute Background [] two_tasks two_tasks_sched \<noteq> None"
  by (simp add: run_defs two_tasks_def two_tasks_sched_def)

text \<open>
  C10.  Whatever the options, the calls and the schedule: no snapshot that \<^verbatim>\<open>Wait\<close> has
  returned holds \<^verbatim>\<open>nil\<close>, the collector never holds \<^verbatim>\<open>nil\<close>, and the error that
  \<^verbatim>\<open>causeForTaskSkip\<close> makes for a skipped task is never \<^verbatim>\<open>nil\<close>.
\<close>

theorem Wait_returns_no_nil:
  assumes "execute c opts p es = Some w"
  shows "(\<forall>snap \<in> set (returned w). None \<notin> set snap)
         \<and> None \<notin> set (errs (runner w))
         \<and> causeForTaskSkip x \<noteq> None"
  using reachable_inv[OF assms] causeForTaskSkip_not_nil
  by (simp add: inv_def inv_caller_def inv_errs_def)

theorem Wait_returns_no_nil_witness:
  "execute Background [] two_tasks two_tasks_sched \<noteq> None
   \<and> None \<notin> set (last (returned (the (execute Background [] two_tasks two_tasks_sched))))
   \<and> returned (the (execute Background [] two_tasks two_tasks_sched)) = [[Some (ErrorString 0)]]"
proof -
  obtain w where w: "execute Background [] two_tasks two_tasks_sched = Some w"
    using execute_two_tasks by blast
  have r: "returned (the (execute Background [] two_tasks two_tasks_sched)) = [[Some (ErrorString 0)]]"
    by (simp add: run_defs two_tasks_def two_tasks_sched_def)
  from Wait_returns_no_nil[OF w] r w show ?thesis by simp
qed

text \<open>
  C8.  With a limit \<open>L > 0\<close>, in every state of every execution at most \<open>L\<close> goroutines
  are in the body of their task; indeed the goroutines that have not released their slot,
  together with a caller that holds a slot for a goroutine it has yet to start, are at
  most \<open>L\<close>.  The order of submission is not the order in which the bodies start: under a
  limit of two there is an execution in which the second task is in its body while the
  first has not taken a step.
\<close>

theorem limit_bounds_running_tasks:
  assumes "execute c opts p es = Some w" and "0 < Limit (configure opts)"
  shows "cnt (\<lambda>g. pc g = G_body) (goroutines w) \<le> unat (Limit (configure opts))
         \<and> cnt (\<lambda>g. pc g \<noteq> G_exit) (goroutines w)
             + (if cpos w = C_admitted \<or> cpos w = C_added then 1 else 0)
             \<le> unat (Limit (configure opts))
         \<and> execute Background [WithLimit 2] two_tasks overtaking_sched \<noteq> None
         \<and> pc (goroutines (the (execute Background [WithLimit 2] two_tasks overtaking_sched)) ! 1)
             = G_body
         \<and> pc (goroutines (the (execute Background [WithLimit 2] two_tasks overtaking_sched)) ! 0)
             = G_check"
proof -
  have "inv_count w" using reachable_inv[OF assms(1)] by (simp add: inv_def)
  moreover obtain ch where ch: "sem (runner w) = Some ch" "cap ch = unat (Limit (configure opts))"
    using execute_config(3)[OF assms(1)] assms(2) by auto
  ultimately have a: "cnt (\<lambda>g. pc g \<noteq> G_exit) (goroutines w)
             + (if cpos w = C_admitted \<or> cpos w = C_added then 1 else 0)
             \<le> unat (Limit (configure opts))"
    by (auto simp: inv_count_def)
  have "cnt (\<lambda>g. pc g = G_body) (goroutines w) \<le> cnt (\<lambda>g. pc g \<noteq> G_exit) (goroutines w)"
    by (rule cnt_mono) simp
  with a have b: "cnt (\<lambda>g. pc g = G_body) (goroutines w) \<le> unat (Limit (configure opts))"
    by simp
  have c: "execute Background [WithLimit 2] two_tasks overtaking_sched \<noteq> None
         \<and> pc (goroutines (the (execute Background [WithLimit 2] two_tasks overtaking_sched)) ! 1)
             = G_body
         \<and> pc (goroutines (the (execute Background [WithLimit 2] two_tasks overtaking_sched)) ! 0)
             = G_check"
    by (simp add: run_defs two_tasks_def overtaking_sched_def)
  from a b c show ?thesis by blast
qed

theorem limit_bounds_running_tasks_witness:
  "execute Background [WithLimit 1] two_tasks first_running_sched \<noteq> None
   \<and> 0 < Limit (configure [WithLimit 1])
   \<and> cnt (\<lambda>g. pc g = G_body)
        (goroutines (the (execute Background [WithLimit 1] two_tasks first_running_sched))) = 1
   \<and> cnt (\<lambda>g. pc g = G_body)
        (goroutines (the (execute Background [WithLimit 1] two_tasks first_running_sched)))
       \<le> unat (Limit (configure [WithLimit 1]))
   \<and> execute Background [WithLimit 1] two_tasks (first_running_sched @ [Caller]) = None"
proof -
  have e: "execute Background [WithLimit 1] two_tasks first_running_sched \<noteq> None"
    by (simp add: run_defs two_tasks_def first_running_sched_def)
  then obtain w where w: "execute Background [WithLimit 1] two_tasks first_running_sched = Some w"
    by blast
  have l: "0 < Limit (configure [WithLimit 1])"
    by (simp add: configure_def WithLimit_def)
  have r: "cnt (\<lambda>g. pc g = G_body)
        (goroutines (the (execute Background [WithLimit 1] two_tasks first_running_sched))) = 1"
    by (simp add: run_defs two_tasks_def first_running_sched_def)
  have b: "execute Background [WithLimit 1] two_tasks (first_running_sched @ [Caller]) = None"
    by (simp add: run_defs two_tasks_def first_running_sched_def)
  from limit_bounds_running_tasks[OF w l] e l r b w show ?thesis by simp
qed

text \<open>
  C9.  A limit of zero, given by \<^verbatim>\<open>WithLimit(0)\<close> or by giving no limit at all, makes a
  Runner without a gate: \<open>New\<close> does not fail for it, \<open>hasLimit\<close> is false in every state of
  every execution, \<open>maybeSemInc\<close> is a no-op that is never blocked, and whenever the caller
  is inside or in front of a call of \<^verbatim>\<open>Go\<close> it can take its next step.
\<close>

theorem zero_limit_never_blocks:
  assumes "Limit (configure opts) = 0"
  shows "init c opts p \<noteq> None
         \<and> (execute c opts p es = Some w \<longrightarrow>
              \<not> hasLimit (runner w)
              \<and> maybeSemInc (runner w) = Some (runner w)
              \<and> (\<forall>t rest. prog w = Go t # rest \<longrightarrow> step Caller w \<noteq> None))
         \<and> Limit (configure []) = 0 \<and> Limit (configure [WithCancelOnFailure]) = 0
         \<and> Limit (configure [WithLimit 0]) = 0"
proof -
  have i: "init c opts p \<noteq> None"
    using assms by (simp add: init_def New_def Let_def split: option.splits)
  have r: "\<not> hasLimit (runner w) \<and> maybeSemInc (runner w) = Some (runner w)
           \<and> (\<forall>t rest. prog w = Go t # rest \<longrightarrow> step Caller w \<noteq> None)"
    if e: "execute c opts p es = Some w"
  proof -
    have s: "sem (runner w) = None" using execute_config(3)[OF e] assms by simp
    then have h: "\<not> hasLimit (runner w)" by (simp add: hasLimit_def)
    then have m: "maybeSemInc (runner w) = Some (runner w)" by (simp add: maybeSemInc_def)
    have "inv_caller w" using reachable_inv[OF e] by (simp add: inv_def)
    then have "\<forall>t rest. prog w = Go t # rest \<longrightarrow> step Caller w \<noteq> None"
      using m by (auto simp: inv_caller_def caller_step_def split: cpc.splits)
    with h m show ?thesis by blast
  qed
  have c: "Limit (configure []) = 0 \<and> Limit (configure [WithCancelOnFailure]) = 0
         \<and> Limit (configure [WithLimit 0]) = 0"
    by (simp add: configure_def WithCancelOnFailure_def WithLimit_def)
  from i r c show ?thesis by blast
qed

theorem zero_limit_never_blocks_witness:
  "Limit (configure [WithLimit 0]) = 0
   \<and> execute Background [WithLimit 0] two_tasks (steps 3 Caller) \<noteq> None
   \<and> prog (the (execute Background [WithLimit 0] two_tasks (steps 3 Caller)))
       = [Go None, Wait]
   \<and> step Caller (the (execute Background [WithLimit 0] two_tasks (steps 3 Caller))) \<noteq> None
   \<and> \<not> hasLimit (runner (the (execute Background [WithLimit 0] two_tasks (steps 3 Caller))))"
proof -
  have l: "Limit (configure [WithLimit 0]) = 0"
    by (simp add: configure_def WithLimit_def)
  have e: "execute Background [WithLimit 0] two_tasks (steps 3 Caller) \<noteq> None"
    by (simp add: run_defs two_tasks_def)
  then obtain w where w: "execute Background [WithLimit 0] two_tasks (steps 3 Caller) = Some w"
    by blast
  have p: "prog (the (execute Background [WithLimit 0] two_tasks (steps 3 Caller)))
       = [Go None, Wait]"
    by (simp add: run_defs two_tasks_def)
  from zero_limit_never_blocks[OF l, of Background two_tasks "steps 3 Caller" w] l e p w
  show ?thesis by simp
qed

text \<open>
  C4.  The code does not do what the claim says for the cause that is a prior task's own
  failure error when \<^verbatim>\<open>errors.Is\<close> recognises that error as \<^verbatim>\<open>Canceled\<close> or
  \<^verbatim>\<open>DeadlineExceeded\<close>: the first task runs and fails with an error that wraps
  \<^verbatim>\<open>DeadlineExceeded\<close>, \<^verbatim>\<open>Cancel\<close> makes it the cause of the Runner's context, and the
  second task is skipped with that very error as its result, not with \<^verbatim>\<open>Canceled\<close>.
  \<^verbatim>\<open>Wait\<close> then returns the first task's error twice.
\<close>

theorem skipped_task_records_failing_tasks_error:
  "execute Background [WithCancelOnFailure] fail_then_ok fail_then_ok_sched \<noteq> None
   \<and> ran (goroutines (the (execute Background [WithCancelOnFailure] fail_then_ok
                              fail_then_ok_sched)) ! 0)
   \<and> f (goroutines (the (execute Background [WithCancelOnFailure] fail_then_ok
                            fail_then_ok_sched)) ! 0) = Some wrapped_deadline
   \<and> skipped (goroutines (the (execute Background [WithCancelOnFailure] fail_then_ok
                                  fail_then_ok_sched)) ! 1)
   \<and> Err (parent (the (execute Background [WithCancelOnFailure] fail_then_ok
                           fail_then_ok_sched))) = None
   \<and> Cause (the_ctx (the (execute Background [WithCancelOnFailure] fail_then_ok
                              fail_then_ok_sched))) = Some wrapped_deadline
   \<and> result (goroutines (the (execute Background [WithCancelOnFailure] fail_then_ok
                                 fail_then_ok_sched)) ! 1) = Some wrapped_deadline
   \<and> result (goroutines (the (execute Background [WithCancelOnFailure] fail_then_ok
                                 fail_then_ok_sched)) ! 1) \<noteq> Some Canceled
   \<and> returned (the (execute Background [WithCancelOnFailure] fail_then_ok fail_then_ok_sched))
       = [[Some wrapped_deadline], [Some wrapped_deadline, Some wrapped_deadline]]"
  by (simp add: run_defs fail_then_ok_def fail_then_ok_sched_def wrapped_deadline_def
        skipped_def after_body_def)

text \<open>
  C3.  The code does not do what the claim says when the failing task's error is one that
  \<^verbatim>\<open>errors.Is\<close> recognises as \<^verbatim>\<open>Canceled\<close> or \<^verbatim>\<open>DeadlineExceeded\<close>.  Eight tasks are
  submitted one at a time with \<^verbatim>\<open>WithCancelOnFailure\<close>, each followed by a join, and only
  the task at index 1 fails, with an error that wraps \<^verbatim>\<open>DeadlineExceeded\<close>.  The six
  later tasks are skipped, and \<^verbatim>\<open>Wait\<close> returns seven errors that are all the failing
  task's own error: none of them is \<^verbatim>\<open>Canceled\<close>, and the errors recorded for the skipped
  tasks are not distinguishable from the original failure.
\<close>

theorem skipped_tasks_repeat_the_failure:
  "execute Background [WithCancelOnFailure] (sequential eight_tasks) eight_sched \<noteq> None
   \<and> finished (the (execute Background [WithCancelOnFailure] (sequential eight_tasks)
                        eight_sched))
   \<and> map ran (goroutines (the (execute Background [WithCancelOnFailure]
                                  (sequential eight_tasks) eight_sched)))
       = [True, True, False, False, False, False, False, False]
   \<and> last (returned (the (execute Background [WithCancelOnFailure] (sequential eight_tasks)
                              eight_sched)))
       = replicate 7 (Some wrapped_deadline)
   \<and> result (goroutines (the (execute Background [WithCancelOnFailure]
                                 (sequential eight_tasks) eight_sched)) ! 2)
       = result (goroutines (the (execute Background [WithCancelOnFailure]
                                    (sequential eight_tasks) eight_sched)) ! 1)
   \<and> cnt (\<lambda>e. errors_Is e (Some Canceled))
        (last (returned (the (execute Background [WithCancelOnFailure]
                                (sequential eight_tasks) eight_sched)))) = 0"
  by (simp add: run_defs sequential_def eight_tasks_def eight_sched_def wrapped_deadline_def
        finished_def)

text \<open>
  C1, amended.  \<open>N\<close> tasks are submitted and joined by a Runner that \<open>New\<close> has built without
  \<^verbatim>\<open>WithCancelOnFailure\<close>, with any limit, under a context that is not cancelled.  Then
  \<^verbatim>\<open>Wait\<close> returns: there is an execution of the threads alone that completes the batch,
  every execution can be continued by steps of the threads to one that completes it, in
  every state in which the caller has not returned some thread can take a step, and no
  schedule of the threads is longer than \<open>9 N + 2\<close> steps.  And in every execution in which
  the caller has returned and its context is still not cancelled, \<^verbatim>\<open>Wait\<close> has returned
  exactly the non-nil results of the tasks, \<open>K\<close> of them, every task has run its body, and
  \<open>N - K\<close> bodies have returned \<^verbatim>\<open>nil\<close>.
\<close>

theorem failures_collected_without_cancel_on_failure:
  assumes "init c opts (map Go ts @ [Wait]) \<noteq> None"
    and "\<not> CancelOnFailure (configure opts)" and "Err c = None"
  shows "(\<exists>es w. list_all thread_event es
            \<and> execute c opts (map Go ts @ [Wait]) es = Some w \<and> finished w
            \<and> Err (parent w) = None
            \<and> returned w \<noteq> []
            \<and> length (last (returned w)) = cnt (\<lambda>t. t \<noteq> None) ts
            \<and> mset (last (returned w)) = mset (filter (\<lambda>t. t \<noteq> None) ts)
            \<and> map f (goroutines w) = ts
            \<and> list_all ran (goroutines w))
         \<and> (\<forall>es w. execute c opts (map Go ts @ [Wait]) es = Some w \<longrightarrow>
               (\<exists>es' w'. list_all thread_event es'
                  \<and> execute c opts (map Go ts @ [Wait]) (es @ es') = Some w'
                  \<and> finished w' \<and> parent w' = parent w))
         \<and> (\<forall>es w. execute c opts (map Go ts @ [Wait]) es = Some w \<and> \<not> finished w \<longrightarrow>
               (\<exists>e. thread_event e \<and> step e w \<noteq> None))
         \<and> (\<forall>es w. execute c opts (map Go ts @ [Wait]) es = Some w \<and> list_all thread_event es
               \<longrightarrow> length es \<le> 9 * length ts + 2)
         \<and> (\<forall>es w. execute c opts (map Go ts @ [Wait]) es = Some w \<and> finished w
                 \<and> Err (parent w) = None \<longrightarrow>
               returned w \<noteq> []
               \<and> length (last (returned w)) = cnt (\<lambda>t. t \<noteq> None) ts
               \<and> mset (last (returned w)) = mset (filter (\<lambda>t. t \<noteq> None) ts)
               \<and> map f (goroutines w) = ts
               \<and> list_all ran (goroutines w)
               \<and> cnt (\<lambda>g. ran g \<and> result g = None) (goroutines w)
                   = length ts - cnt (\<lambda>t. t \<noteq> None) ts)"
proof -
  let ?p = "map Go ts @ [Wait]"
  have safe: "returned w \<noteq> []
               \<and> length (last (returned w)) = cnt (\<lambda>t. t \<noteq> None) ts
               \<and> mset (last (returned w)) = mset (filter (\<lambda>t. t \<noteq> None) ts)
               \<and> map f (goroutines w) = ts
               \<and> list_all ran (goroutines w)
               \<and> cnt (\<lambda>g. ran g \<and> result g = None) (goroutines w)
                   = length ts - cnt (\<lambda>t. t \<noteq> None) ts"
    if "execute c opts ?p es = Some w" "finished w" "Err (parent w) = None" for es w
    using batch_results[OF that(1,2) assms(2) that(3)] .
  from complete_execution[OF assms(1)] obtain es w where
    r: "list_all thread_event es" "execute c opts ?p es = Some w" "finished w" "parent w = c"
    by blast
  have live: "Err (parent w) = None" using r(4) assms(3) by simp
  have a: "\<exists>es w. list_all thread_event es
            \<and> execute c opts ?p es = Some w \<and> finished w
            \<and> Err (parent w) = None
            \<and> returned w \<noteq> []
            \<and> length (last (returned w)) = cnt (\<lambda>t. t \<noteq> None) ts
            \<and> mset (last (returned w)) = mset (filter (\<lambda>t. t \<noteq> None) ts)
            \<and> map f (goroutines w) = ts
            \<and> list_all ran (goroutines w)"
    using safe[OF r(2,3) live] r live by blast
  have b: "\<forall>es w. execute c opts ?p es = Some w \<longrightarrow>
               (\<exists>es' w'. list_all thread_event es'
                  \<and> execute c opts ?p (es @ es') = Some w'
                  \<and> finished w' \<and> parent w' = parent w)"
    using reachable_completion by blast
  have d: "\<forall>es w. execute c opts ?p es = Some w \<and> \<not> finished w \<longrightarrow>
               (\<exists>e. thread_event e \<and> step e w \<noteq> None)"
    using reachable_progress by blast
  have e: "\<forall>es w. execute c opts ?p es = Some w \<and> list_all thread_event es
               \<longrightarrow> length es \<le> 9 * length ts + 2"
    using execution_length[of c opts ?p] cost_batch[of ts] by auto
  have g: "\<forall>es w. execute c opts ?p es = Some w \<and> finished w \<and> Err (parent w) = None \<longrightarrow>
               returned w \<noteq> []
               \<and> length (last (returned w)) = cnt (\<lambda>t. t \<noteq> None) ts
               \<and> mset (last (returned w)) = mset (filter (\<lambda>t. t \<noteq> None) ts)
               \<and> map f (goroutines w) = ts
               \<and> list_all ran (goroutines w)
               \<and> cnt (\<lambda>g. ran g \<and> result g = None) (goroutines w)
                   = length ts - cnt (\<lambda>t. t \<noteq> None) ts"
    using safe by blast
  show ?thesis
    by (rule conjI[OF a conjI[OF b conjI[OF d conjI[OF e g]]]])
qed

theorem failures_collected_without_cancel_on_failure_witness:
  "init Background [WithLimit 1] (map Go [Some (ErrorString 0), None] @ [Wait]) \<noteq> None
   \<and> \<not> CancelOnFailure (configure [WithLimit 1])
   \<and> Err Background = None
   \<and> execute Background [WithLimit 1] (map Go [Some (ErrorString 0), None] @ [Wait])
        two_tasks_serial_sched \<noteq> None
   \<and> finished (the (execute Background [WithLimit 1]
        (map Go [Some (ErrorString 0), None] @ [Wait]) two_tasks_serial_sched))
   \<and> last (returned (the (execute Background [WithLimit 1]
        (map Go [Some (ErrorString 0), None] @ [Wait]) two_tasks_serial_sched)))
       = [Some (ErrorString 0)]
   \<and> length (last (returned (the (execute Background [WithLimit 1]
        (map Go [Some (ErrorString 0), None] @ [Wait]) two_tasks_serial_sched))))
       = cnt (\<lambda>t. t \<noteq> None) [Some (ErrorString 0), None]
   \<and> list_all ran (goroutines (the (execute Background [WithLimit 1]
        (map Go [Some (ErrorString 0), None] @ [Wait]) two_tasks_serial_sched)))"
proof -
  let ?p = "map Go [Some (ErrorString 0), None] @ [Wait]"
  let ?x = "execute Background [WithLimit 1] ?p two_tasks_serial_sched"
  have i: "init Background [WithLimit 1] ?p \<noteq> None"
    by (simp add: run_defs)
  have c: "\<not> CancelOnFailure (configure [WithLimit 1])"
    by (simp add: configure_def WithLimit_def)
  have b: "Err Background = None" by (simp add: Background_def)
  have e: "?x \<noteq> None"
    by (simp add: run_defs two_tasks_serial_sched_def)
  then obtain w where w: "?x = Some w" by blast
  have fin: "finished (the ?x)"
    by (simp add: run_defs two_tasks_serial_sched_def finished_def)
  have p: "Err (parent (the ?x)) = None"
    by (simp add: run_defs two_tasks_serial_sched_def)
  have r: "last (returned (the ?x)) = [Some (ErrorString 0)]"
    by (simp add: run_defs two_tasks_serial_sched_def)
  have "length (last (returned w)) = cnt (\<lambda>t. t \<noteq> None) [Some (ErrorString 0), None]
        \<and> list_all ran (goroutines w)"
    using failures_collected_without_cancel_on_failure[OF i c b] w fin p by auto
  with i c b e fin r w show ?thesis by simp
qed

text \<open>
  C1 as stated fails when the caller's context is cancelled: two tasks, of which one
  returns an error, are submitted without options after the context has been cancelled;
  \<^verbatim>\<open>Wait\<close> returns two errors, and the body of the task that would succeed is not run.
\<close>

theorem cancelled_context_counterexample:
  "execute Background [] two_tasks cancelled_first_sched \<noteq> None
   \<and> finished (the (execute Background [] two_tasks cancelled_first_sched))
   \<and> \<not> CancelOnFailure (configure [])
   \<and> two_tasks = map Go [Some (ErrorString 0), None] @ [Wait]
   \<and> last (returned (the (execute Background [] two_tasks cancelled_first_sched)))
       = [Some Canceled, Some Canceled]
   \<and> \<not> ran (goroutines (the (execute Background [] two_tasks cancelled_first_sched)) ! 1)"
  by (simp add: run_defs two_tasks_def cancelled_first_sched_def two_tasks_sched_def
        finished_def)

text \<open>
  C2, amended.  \<open>n\<close> tasks that all return \<^verbatim>\<open>nil\<close> are submitted and joined by a Runner that
  \<open>New\<close> has built, with any options, under a context that is not cancelled.  Then \<^verbatim>\<open>Wait\<close>
  returns: there is an execution of the threads alone that completes the batch, every
  execution can be continued by steps of the threads to one that completes it, in every
  state in which the caller has not returned some thread can take a step, and no schedule
  of the threads is longer than \<open>9 n + 2\<close> steps.  And in every execution in which the
  caller has returned and its context is still not cancelled, \<^verbatim>\<open>Wait\<close> has returned the
  empty sequence and each of the \<open>n\<close> tasks has run its body.
\<close>

theorem no_failures_empty_result:
  assumes "init c opts (map Go (replicate n None) @ [Wait]) \<noteq> None" and "Err c = None"
  shows "(\<exists>es w. list_all thread_event es
            \<and> execute c opts (map Go (replicate n None) @ [Wait]) es = Some w \<and> finished w
            \<and> Err (parent w) = None
            \<and> returned w \<noteq> [] \<and> last (returned w) = []
            \<and> length (goroutines w) = n
            \<and> list_all ran (goroutines w))
         \<and> (\<forall>es w. execute c opts (map Go (replicate n None) @ [Wait]) es = Some w \<longrightarrow>
               (\<exists>es' w'. list_all thread_event es'
                  \<and> execute c opts (map Go (replicate n None) @ [Wait]) (es @ es') = Some w'
                  \<and> finished w' \<and> parent w' = parent w))
         \<and> (\<forall>es w. execute c opts (map Go (replicate n None) @ [Wait]) es = Some w
                 \<and> \<not> finished w \<longrightarrow>
               (\<exists>e. thread_event e \<and> step e w \<noteq> None))
         \<and> (\<forall>es w. execute c opts (map Go (replicate n None) @ [Wait]) es = Some w
                 \<and> list_all thread_event es \<longrightarrow> length es \<le> 9 * n + 2)
         \<and> (\<forall>es w. execute c opts (map Go (replicate n None) @ [Wait]) es = Some w
                 \<and> finished w \<and> Err (parent w) = None \<longrightarrow>
               returned w \<noteq> [] \<and> last (returned w) = []
               \<and> length (goroutines w) = n
               \<and> list_all ran (goroutines w)
               \<and> cnt ran (goroutines w) = n)"
proof -
  let ?p = "map Go (replicate n None) @ [Wait]"
  have safe: "returned w \<noteq> [] \<and> last (returned w) = []
               \<and> length (goroutines w) = n
               \<and> list_all ran (goroutines w)
               \<and> cnt ran (goroutines w) = n"
    if "execute c opts ?p es = Some w" "finished w" "Err (parent w) = None" for es w
    using nil_batch_results[OF that] .
  from complete_execution[OF assms(1)] obtain es w where
    r: "list_all thread_event es" "execute c opts ?p es = Some w" "finished w" "parent w = c"
    by blast
  have live: "Err (parent w) = None" using r(4) assms(2) by simp
  have a: "\<exists>es w. list_all thread_event es
            \<and> execute c opts ?p es = Some w \<and> finished w
            \<and> Err (parent w) = None
            \<and> returned w \<noteq> [] \<and> last (returned w) = []
            \<and> length (goroutines w) = n
            \<and> list_all ran (goroutines w)"
    using safe[OF r(2,3) live] r live by blast
  have b: "\<forall>es w. execute c opts ?p es = Some w \<longrightarrow>
               (\<exists>es' w'. list_all thread_event es'
                  \<and> execute c opts ?p (es @ es') = Some w'
                  \<and> finished w' \<and> parent w' = parent w)"
    using reachable_completion by blast
  have d: "\<forall>es w. execute c opts ?p es = Some w \<and> \<not> finished w \<longrightarrow>
               (\<exists>e. thread_event e \<and> step e w \<noteq> None)"
    using reachable_progress by blast
  have "sum_list (map cost_cmd ?p) = 9 * n + 2"
    using cost_batch[of "replicate n None"] by simp
  then have e: "\<forall>es w. execute c opts ?p es = Some w \<and> list_all thread_event es
               \<longrightarrow> length es \<le> 9 * n + 2"
    using execution_length[of c opts ?p] by auto
  have g: "\<forall>es w. execute c opts ?p es = Some w \<and> finished w \<and> Err (parent w) = None \<longrightarrow>
               returned w \<noteq> [] \<and> last (returned w) = []
               \<and> length (goroutines w) = n
               \<and> list_all ran (goroutines w)
               \<and> cnt ran (goroutines w) = n"
    using safe by blast
  show ?thesis
    by (rule conjI[OF a conjI[OF b conjI[OF d conjI[OF e g]]]])
qed

theorem no_failures_empty_result_witness:
  "init Background [WithCancelOnFailure] (map Go (replicate 3 None) @ [Wait]) \<noteq> None
   \<and> Err Background = None
   \<and> execute Background [WithCancelOnFailure] (map Go (replicate 3 None) @ [Wait])
        three_ok_sched \<noteq> None
   \<and> finished (the (execute Background [WithCancelOnFailure]
        (map Go (replicate 3 None) @ [Wait]) three_ok_sched))
   \<and> Err (parent (the (execute Background [WithCancelOnFailure]
        (map Go (replicate 3 None) @ [Wait]) three_ok_sched))) = None
   \<and> last (returned (the (execute Background [WithCancelOnFailure]
        (map Go (replicate 3 None) @ [Wait]) three_ok_sched))) = []
   \<and> cnt ran (goroutines (the (execute Background [WithCancelOnFailure]
        (map Go (replicate 3 None) @ [Wait]) three_ok_sched))) = 3"
proof -
  let ?p = "map Go (replicate 3 None) @ [Wait]"
  let ?x = "execute Background [WithCancelOnFailure] ?p three_ok_sched"
  have i: "init Background [WithCancelOnFailure] ?p \<noteq> None"
    by (simp add: run_defs)
  have b: "Err Background = None" by (simp add: Background_def)
  have e: "?x \<noteq> None"
    by (simp add: run_defs three_ok_sched_def)
  then obtain w where w: "?x = Some w" by blast
  have fin: "finished (the ?x)"
    by (simp add: run_defs three_ok_sched_def finished_def)
  have p: "Err (parent (the ?x)) = None"
    by (simp add: run_defs three_ok_sched_def)
  have "last (returned w) = [] \<and> cnt ran (goroutines w) = 3"
    using no_failures_empty_result[OF i b] w fin p by auto
  with i b e fin p w show ?thesis by simp
qed

text \<open>
  C2 as stated fails when the caller's context is done: one task that returns \<^verbatim>\<open>nil\<close> is
  submitted under a context whose deadline has passed; \<^verbatim>\<open>Wait\<close> returns one error and
  the body of the task is not run.
\<close>

theorem expired_context_counterexample:
  "execute expired [] one_task one_skip_sched \<noteq> None
   \<and> finished (the (execute expired [] one_task one_skip_sched))
   \<and> one_task = map Go (replicate 1 None) @ [Wait]
   \<and> last (returned (the (execute expired [] one_task one_skip_sched)))
       = [Some DeadlineExceeded]
   \<and> \<not> ran (goroutines (the (execute expired [] one_task one_skip_sched)) ! 0)"
  by (simp add: run_defs expired_def one_task_def one_skip_sched_def finished_def)

section \<open>The trigger of the derived context\<close>







section \<open>Tasks submitted after the caller's context is done\<close>

lemma never_runs_step:
  assumes "Err (the_ctx w) \<noteq> None"
    and "\<forall>g \<in> set (goroutines w). \<not> ran g \<and> pc g \<noteq> G_body"
    and "step e w = Some w'"
  shows "\<forall>g \<in> set (goroutines w'). \<not> ran g \<and> pc g \<noteq> G_body"
proof (cases e)
  case Caller
  with assms(3) have "caller_step w = Some w'" by simp
  then show ?thesis using assms(2)
    by (cases rule: caller_step_cases) (auto simp: spawn_def)
next
  case (Task i)
  with assms(3) have "task_step i w = Some w'" by simp
  then show ?thesis using assms(1,2)
    by (cases rule: task_step_cases) auto
next
  case (ParentCancel e c)
  with assms(3) have "parent_cancel e c w = Some w'" by simp
  then show ?thesis using assms(2)
    by (cases rule: parent_cancel_cases) simp
qed

lemma never_runs:
  assumes "Err (the_ctx w) \<noteq> None"
    and "\<forall>g \<in> set (goroutines w). \<not> ran g \<and> pc g \<noteq> G_body"
    and "run es w = Some w'"
  shows "the_ctx w' = the_ctx w \<and> (\<forall>g \<in> set (goroutines w'). \<not> ran g \<and> pc g \<noteq> G_body)"
  using assms
proof (induction es arbitrary: w)
  case Nil
  then show ?case by simp
next
  case (Cons e es)
  from Cons.prems(3) obtain w1 where s: "step e w = Some w1" and r: "run es w1 = Some w'"
    by (auto split: option.splits)
  have c: "the_ctx w1 = the_ctx w" using the_ctx_stable[OF s Cons.prems(1)] .
  have n: "\<forall>g \<in> set (goroutines w1). \<not> ran g \<and> pc g \<noteq> G_body"
    using never_runs_step[OF Cons.prems(1,2) s] .
  show ?case using Cons.IH[OF _ n r] c Cons.prems(1) by simp
qed

lemma ctx_of_done_parent:
  assumes "inv w" "goroutines w = []" "Err (parent w) \<noteq> None" "Cause (parent w) \<noteq> None"
  shows "the_ctx w = parent w"
proof (cases "ctx (runner w)")
  case Parent
  then show ?thesis by (simp add: the_ctx_def)
next
  case Derived
  have ih: "inv_history w" and idv: "inv_derived w"
    using assms(1) by (simp_all add: inv_def inv_cancel_def)
  have "mset (cancel_attempts w) = {#}"
    using ih assms(2) by (simp add: inv_history_def)
  then have "\<not> once (failCanceler (runner w))" using ih by (simp add: inv_history_def)
  from inv_derivedD(5)[OF idv Derived this assms(3,4)] Derived show ?thesis
    by (simp add: the_ctx_def)
qed

lemma mset_replicate_eq:
  assumes "mset xs = mset (replicate n x)"
  shows "xs = replicate n x"
proof -
  have "set xs = set (replicate n x)" using assms by (rule mset_eq_setD)
  then have a: "\<forall>y \<in> set xs. y = x" by auto
  have "length xs = n" using assms by (metis length_replicate size_mset)
  with a show ?thesis by (metis replicate_length_same)
qed

lemma skip_results:
  assumes "\<forall>g \<in> set gs. appended g \<longrightarrow> result g = x"
  shows "map result (filter appended gs) = replicate (cnt appended gs) x"
  using assms by (induction gs) (auto simp: cnt_def)

lemma cnt_all: "\<forall>x \<in> set xs. P x \<Longrightarrow> cnt P xs = length xs"
  by (induction xs) (auto simp: cnt_def)

text \<open>
  C7, amended.  Let the caller's context be done, with a cause, at a moment when no task
  has been submitted, whether or not \<^verbatim>\<open>WithCancelOnFailure\<close> was given.  In every state
  reached from there, no goroutine has run or is running the body of its task, and the
  result of every goroutine that has passed the check is \<^verbatim>\<open>causeForTaskSkip\<close> of the
  caller's context: the cause of that context when \<^verbatim>\<open>errors.Is\<close> recognises it as
  \<^verbatim>\<open>context.Canceled\<close> or \<^verbatim>\<open>context.DeadlineExceeded\<close>, and \<^verbatim>\<open>context.Canceled\<close>
  otherwise.  The collector holds that error once per goroutine that has passed
  \<^verbatim>\<open>Append\<close>; a program that ends with \<^verbatim>\<open>Wait\<close> returns it once per submitted task.
  The execution can always be completed, and is not stuck before it is.
\<close>

theorem skipped_after_caller_cancellation:
  assumes "execute c opts p es1 = Some w1" and "goroutines w1 = []"
    and "Err (parent w1) \<noteq> None" and "Cause (parent w1) \<noteq> None"
    and "run es2 w1 = Some w"
  shows "(\<forall>g \<in> set (goroutines w). \<not> ran g \<and> pc g \<noteq> G_body
            \<and> (after_body g \<longrightarrow>
                  result g = causeForTaskSkip (parent w1) \<and> result g \<noteq> None
                  \<and> (is_cancellation (Cause (parent w1)) \<longrightarrow> result g = Cause (parent w1))
                  \<and> (\<not> is_cancellation (Cause (parent w1)) \<longrightarrow> result g = Some Canceled))
            \<and> (appended g \<longrightarrow> result g \<in> set (errs (runner w))))
         \<and> errs (runner w)
             = replicate (cnt appended (goroutines w)) (causeForTaskSkip (parent w1))
         \<and> (\<forall>q. p = q @ [Wait] \<and> finished w \<longrightarrow>
               returned w \<noteq> []
               \<and> last (returned w)
                   = replicate (length (go_tasks q)) (causeForTaskSkip (parent w1)))
         \<and> (\<exists>es' w'. list_all thread_event es' \<and> run es' w = Some w' \<and> finished w')
         \<and> (\<not> finished w \<longrightarrow> (\<exists>e. thread_event e \<and> step e w \<noteq> None))"
proof -
  let ?x = "causeForTaskSkip (parent w1)"
  have i1: "inv w1" using reachable_inv[OF assms(1)] .
  have x: "execute c opts p (es1 @ es2) = Some w"
    using assms(1,5) by (simp add: execute_append)
  have i: "inv w" using reachable_inv[OF x] .
  have il: "inv_local w" and ie: "inv_errs w" using i by (simp_all add: inv_def)
  have c1: "the_ctx w1 = parent w1" using ctx_of_done_parent[OF i1 assms(2,3,4)] .
  then have e1: "Err (the_ctx w1) \<noteq> None" using assms(3) by simp
  have nr: "the_ctx w = the_ctx w1 \<and> (\<forall>g \<in> set (goroutines w). \<not> ran g \<and> pc g \<noteq> G_body)"
    using never_runs[OF e1 _ assms(5)] assms(2) by simp
  have res: "result g = ?x" if "g \<in> set (goroutines w)" "after_body g" for g
  proof -
    have "local_ok w g" using il that(1) by (simp add: inv_local_def)
    moreover have "skipped g" using nr that by (simp add: skipped_def)
    ultimately show ?thesis using nr c1 by (simp add: local_ok_def)
  qed
  have ab: "after_body g" if "appended g" for g
    using that by (auto simp: appended_def after_body_def)
  have a: "\<forall>g \<in> set (goroutines w). \<not> ran g \<and> pc g \<noteq> G_body
            \<and> (after_body g \<longrightarrow>
                  result g = ?x \<and> result g \<noteq> None
                  \<and> (is_cancellation (Cause (parent w1)) \<longrightarrow> result g = Cause (parent w1))
                  \<and> (\<not> is_cancellation (Cause (parent w1)) \<longrightarrow> result g = Some Canceled))
            \<and> (appended g \<longrightarrow> result g \<in> set (errs (runner w)))"
  proof (intro ballI conjI impI)
    fix g assume g: "g \<in> set (goroutines w)"
    show "\<not> ran g" and "pc g \<noteq> G_body" using nr g by simp_all
    show "result g \<in> set (errs (runner w))" if "appended g"
      using appended_recorded[OF ie g that] .
    show "result g = ?x" if "after_body g" using res[OF g that] .
    show "result g \<noteq> None" if "after_body g"
      using res[OF g that] causeForTaskSkip_not_nil[of "parent w1"] by simp
    show "result g = Cause (parent w1)"
      if "after_body g" "is_cancellation (Cause (parent w1))"
      using res[OF g that(1)] that(2) by (simp add: causeForTaskSkip_eq)
    show "result g = Some Canceled"
      if "after_body g" "\<not> is_cancellation (Cause (parent w1))"
      using res[OF g that(1)] that(2) by (simp add: causeForTaskSkip_eq)
  qed
  have m: "map result (filter appended (goroutines w))
             = replicate (cnt appended (goroutines w)) ?x"
    using res ab by (intro skip_results) blast
  have "mset (errs (runner w)) = mset (map result (filter appended (goroutines w)))"
    using ie by (simp add: inv_errs_def)
  then have b: "errs (runner w) = replicate (cnt appended (goroutines w)) ?x"
    using m by (simp add: mset_replicate_eq)
  have d: "returned w \<noteq> [] \<and> last (returned w) = replicate (length (go_tasks q)) ?x"
    if t: "p = q @ [Wait]" "finished w" for q
  proof -
    have xq: "execute c opts (q @ [Wait]) (es1 @ es2) = Some w" using x t(1) by simp
    note fs = final_state[OF xq t(2)]
    have "\<forall>g \<in> set (goroutines w). appended g"
    proof
      fix g assume g: "g \<in> set (goroutines w)"
      then have pcg: "pc g = G_dec \<or> pc g = G_exit" using fs(3) by blast
      then have "after_body g" by (auto simp: after_body_def)
      then have "result g \<noteq> None"
        using res[OF g] causeForTaskSkip_not_nil[of "parent w1"] by simp
      with pcg show "appended g" by (auto simp: appended_def)
    qed
    then have "cnt appended (goroutines w) = length (goroutines w)" by (rule cnt_all)
    also have "\<dots> = length (go_tasks q)" using fs(4) by (metis length_map)
    finally show ?thesis using fs(1,2) b by simp
  qed
  have e: "\<exists>es' w'. list_all thread_event es' \<and> run es' w = Some w' \<and> finished w'"
    using completion[OF i] by blast
  have g: "\<not> finished w \<longrightarrow> (\<exists>e. thread_event e \<and> step e w \<noteq> None)"
    using progress[OF i] by blast
  from a b d e g show ?thesis by blast
qed

theorem skipped_after_caller_cancellation_witness:
  "execute Background [WithCancelOnFailure] one_task
       [ParentCancel DeadlineExceeded wrapped_deadline] \<noteq> None
   \<and> goroutines (the (execute Background [WithCancelOnFailure] one_task
       [ParentCancel DeadlineExceeded wrapped_deadline])) = []
   \<and> parent (the (execute Background [WithCancelOnFailure] one_task
       [ParentCancel DeadlineExceeded wrapped_deadline]))
       = \<lparr>Err = Some DeadlineExceeded, Cause = Some wrapped_deadline\<rparr>
   \<and> run one_skip_cancel_sched (the (execute Background [WithCancelOnFailure] one_task
       [ParentCancel DeadlineExceeded wrapped_deadline])) \<noteq> None
   \<and> finished (the (run one_skip_cancel_sched
       (the (execute Background [WithCancelOnFailure] one_task
          [ParentCancel DeadlineExceeded wrapped_deadline]))))
   \<and> map ran (goroutines (the (run one_skip_cancel_sched
       (the (execute Background [WithCancelOnFailure] one_task
          [ParentCancel DeadlineExceeded wrapped_deadline]))))) = [False]
   \<and> last (returned (the (run one_skip_cancel_sched
       (the (execute Background [WithCancelOnFailure] one_task
          [ParentCancel DeadlineExceeded wrapped_deadline]))))) = [Some wrapped_deadline]
   \<and> errs (runner (the (run one_skip_cancel_sched
       (the (execute Background [WithCancelOnFailure] one_task
          [ParentCancel DeadlineExceeded wrapped_deadline])))))
       = replicate (cnt appended (goroutines (the (run one_skip_cancel_sched
           (the (execute Background [WithCancelOnFailure] one_task
              [ParentCancel DeadlineExceeded wrapped_deadline]))))))
           (causeForTaskSkip (parent (the (execute Background [WithCancelOnFailure] one_task
              [ParentCancel DeadlineExceeded wrapped_deadline]))))"
proof -
  let ?x = "execute Background [WithCancelOnFailure] one_task
              [ParentCancel DeadlineExceeded wrapped_deadline]"
  let ?y = "run one_skip_cancel_sched (the ?x)"
  have e: "?x \<noteq> None" by (simp add: run_defs one_task_def)
  then obtain w1 where w1: "?x = Some w1" by blast
  have g: "goroutines (the ?x) = []" by (simp add: run_defs one_task_def)
  have p: "parent (the ?x) = \<lparr>Err = Some DeadlineExceeded, Cause = Some wrapped_deadline\<rparr>"
    by (simp add: run_defs one_task_def)
  have r: "?y \<noteq> None"
    by (simp add: run_defs one_task_def one_skip_cancel_sched_def wrapped_deadline_def)
  then obtain w where w: "?y = Some w" by blast
  have fin: "finished (the ?y)"
    by (simp add: run_defs one_task_def one_skip_cancel_sched_def wrapped_deadline_def
          finished_def)
  have rn: "map ran (goroutines (the ?y)) = [False]"
    by (simp add: run_defs one_task_def one_skip_cancel_sched_def wrapped_deadline_def)
  have rt: "last (returned (the ?y)) = [Some wrapped_deadline]"
    by (simp add: run_defs one_task_def one_skip_cancel_sched_def wrapped_deadline_def)
  have g1: "goroutines w1 = []" using g w1 by simp
  have p1: "Err (parent w1) \<noteq> None" "Cause (parent w1) \<noteq> None" using p w1 by simp_all
  have y1: "run one_skip_cancel_sched w1 = Some w" using w w1 by simp
  have "errs (runner w) = replicate (cnt appended (goroutines w)) (causeForTaskSkip (parent w1))"
    using skipped_after_caller_cancellation[OF w1 g1 p1 y1] by blast
  then have "errs (runner (the ?y))
       = replicate (cnt appended (goroutines (the ?y))) (causeForTaskSkip (parent (the ?x)))"
    using w w1 by simp
  with e g p r fin rn rt show ?thesis by blast
qed

text \<open>
  C7 as stated fails when the caller's context was cancelled with a cause of the caller's
  own: the task is skipped, and the error that \<^verbatim>\<open>Wait\<close> returns for it is
  \<^verbatim>\<open>context.Canceled\<close>, not that cause, with and without \<^verbatim>\<open>WithCancelOnFailure\<close>.
\<close>

theorem custom_cause_counterexample:
  "Err cancelled_with_cause \<noteq> None
   \<and> Cause cancelled_with_cause = Some (ErrorString 7)
   \<and> execute cancelled_with_cause [] one_task one_skip_sched \<noteq> None
   \<and> finished (the (execute cancelled_with_cause [] one_task one_skip_sched))
   \<and> map ran (goroutines (the (execute cancelled_with_cause [] one_task one_skip_sched)))
       = [False]
   \<and> last (returned (the (execute cancelled_with_cause [] one_task one_skip_sched)))
       = [Some Canceled]
   \<and> execute cancelled_with_cause [WithCancelOnFailure] one_task one_skip_cancel_sched \<noteq> None
   \<and> finished (the (execute cancelled_with_cause [WithCancelOnFailure] one_task
        one_skip_cancel_sched))
   \<and> last (returned (the (execute cancelled_with_cause [WithCancelOnFailure] one_task
        one_skip_cancel_sched))) = [Some Canceled]
   \<and> Some Canceled \<noteq> Cause cancelled_with_cause"
  by (simp add: run_defs one_task_def one_skip_sched_def one_skip_cancel_sched_def
        cancelled_with_cause_def finished_def)

section \<open>Tasks skipped after a task has failed\<close>




end
